theory Spec2Isabelle
  imports Main
begin

section \<open>The filter-expression parser of plantcv/parallel/parsers.py\<close>

text \<open>
  The class \<open>ParseMatchArg\<close> turns an expression such as \<open>id:[1,2],camera:SV\<close> into a
  dictionary from filter names to lists of accepted values. It works in two passes:
  \<open>_tokenize_match_arg\<close> fills three parallel lists (\<open>tokens\<close>, \<open>specials\<close>,
  \<open>indices\<close>), and \<open>_create_dictionary\<close> runs a six-state machine over them.

  Every exception of the source is a value of \<open>error\<close>. The classes derived from
  \<open>ShowSourceOfError\<close> carry the index handed to their constructor (the message and the
  expression they also render are fixed by the class and by the input). Reading the loop
  variable \<open>idx\<close> of a \<open>for\<close> loop whose body never ran is Python's \<open>UnboundLocalError\<close>.
\<close>

datatype error =
    EmptyKeyError nat
  | EmptyValueError nat
  | UnexpectedSpecialCharacterError nat
  | MissingColonError nat
  | KeyValuePairInListError nat
  | EmptyListError nat
  | OnlyCommaValidError nat
  | IncompleteKeyValuePairError nat
  | UnboundLocalError

subsection \<open>Tokenizer\<close>

definition special_characters :: string where
  "special_characters = '':[],''"

definition quote_symbols :: "char list" where
  "quote_symbols = [CHR 0x27, CHR 0x22]"

definition backslash :: char where
  "backslash = CHR 0x5C"

text \<open>
  The fields \<open>tokens\<close>, \<open>specials\<close>, \<open>indices\<close> and \<open>current_item\<close> are attributes of the
  object; \<open>escaped\<close>, \<open>active_quotes\<close> and \<open>idx\<close> are locals of \<open>_tokenize_match_arg\<close>.
  \<open>idx\<close> is \<open>None\<close> as long as the loop has not bound it.
\<close>

record tokenizer =
  tokens :: "string list"
  specials :: "bool list"
  indices :: "nat list"
  current_item :: string
  escaped :: bool
  active_quotes :: "char list"
  idx :: "nat option"

definition flush_current_item :: "bool \<Rightarrow> nat \<Rightarrow> tokenizer \<Rightarrow> tokenizer" where
  "flush_current_item special i st =
     (if current_item st \<noteq> [] then
        st\<lparr>tokens := tokens st @ [current_item st],
           indices := indices st @ [i],
           specials := specials st @ [special],
           current_item := []\<rparr>
      else st)"

text \<open>\<open>list.index\<close>: the position of the first occurrence. The source calls it only
  under the guard \<open>char in active_quotes\<close>, so the \<open>ValueError\<close> of a missing element
  cannot arise there.\<close>

fun index :: "'a list \<Rightarrow> 'a \<Rightarrow> nat" where
  "index [] x = 0"
| "index (y # ys) x = (if y = x then 0 else Suc (index ys x))"

text \<open>One iteration of the loop over \<open>enumerate(self.match_string)\<close>.\<close>

definition tokenize_char :: "nat \<Rightarrow> char \<Rightarrow> tokenizer \<Rightarrow> tokenizer" where
  "tokenize_char i c st0 =
     (let st = st0\<lparr>idx := Some i\<rparr> in
      if escaped st then
        st\<lparr>current_item := current_item st @ [c], escaped := False\<rparr>
      else if c \<in> set quote_symbols then
        (if c \<in> set (active_quotes st) then
           (let quote_index = index (active_quotes st) c;
                st1 = st\<lparr>active_quotes := take quote_index (active_quotes st)\<rparr>
            in if quote_index \<noteq> 0 then st1\<lparr>current_item := current_item st1 @ [c]\<rparr>
               else st1)
         else st\<lparr>active_quotes := active_quotes st @ [c]\<rparr>)
      else if length (active_quotes st) = 0 then
        (if c \<in> set special_characters then
           (let st1 = flush_current_item False i st;
                st2 = st1\<lparr>current_item := current_item st1 @ [c]\<rparr>
            in flush_current_item True i st2)
         else if c = backslash then
           st\<lparr>escaped := True\<rparr>
         else if c = CHR '','' then
           (let st1 = flush_current_item False i st;
                st2 = st1\<lparr>current_item := current_item st1 @ [c]\<rparr>
            in flush_current_item True i st2)
         else
           st\<lparr>current_item := current_item st @ [c]\<rparr>)
      else
        st\<lparr>current_item := current_item st @ [c]\<rparr>)"

fun tokenize_loop :: "nat \<Rightarrow> string \<Rightarrow> tokenizer \<Rightarrow> tokenizer" where
  "tokenize_loop i [] st = st"
| "tokenize_loop i (c # cs) st = tokenize_loop (Suc i) cs (tokenize_char i c st)"

definition tokenizer_init :: tokenizer where
  "tokenizer_init =
     \<lparr>tokens = [], specials = [], indices = [], current_item = [],
      escaped = False, active_quotes = [], idx = None\<rparr>"

definition tokenize_match_arg :: "string \<Rightarrow> error + tokenizer" where
  "tokenize_match_arg match_string =
     (let st = tokenize_loop 0 match_string tokenizer_init in
      case idx st of
        None \<Rightarrow> Inl UnboundLocalError
      | Some i \<Rightarrow> Inr (flush_current_item False i st))"

subsection \<open>Structural parser\<close>

datatype mode =
    expecting_key
  | expecting_colon
  | expecting_value
  | expecting_list_value
  | expecting_list_comma
  | expecting_key_comma

text \<open>
  \<open>self.out\<close> is a Python dictionary, which keeps its keys in insertion order: an
  association list with distinct keys, a new key going to the end. The attribute
  \<open>current_value\<close> is assigned once and never read, so it is left out. \<open>last_idx\<close> is the
  loop variable \<open>idx\<close> of \<open>_create_dictionary\<close>.
\<close>

type_synonym filter_map = "(string \<times> string list) list"

record parser =
  mode :: mode
  out :: filter_map
  current_key :: "string option"
  current_value_list :: "string list"
  last_idx :: "nat option"

definition flush_value :: "string \<Rightarrow> parser \<Rightarrow> parser" where
  "flush_value current_value p =
     p\<lparr>current_value_list := current_value_list p @ [current_value]\<rparr>"

definition extend :: "filter_map \<Rightarrow> string \<Rightarrow> string list \<Rightarrow> filter_map" where
  "extend d k vs = map (\<lambda>(k', old). if k' = k then (k', old @ vs) else (k', old)) d"

definition flush_key_value :: "parser \<Rightarrow> parser" where
  "flush_key_value p =
     (case current_key p of
        None \<Rightarrow> p
      | Some k \<Rightarrow>
          p\<lparr>out := (if k \<in> fst ` set (out p)
                     then extend (out p) k (current_value_list p)
                     else out p @ [(k, current_value_list p)]),
            current_value_list := [],
            current_key := None\<rparr>)"

text \<open>One iteration of the loop over \<open>zip(self.tokens, self.specials, self.indices)\<close>.
  A token that matches no branch (a plain token while a colon is expected) leaves the
  state as it is.\<close>

definition parse_token :: "string \<Rightarrow> bool \<Rightarrow> nat \<Rightarrow> parser \<Rightarrow> error + parser" where
  "parse_token token special i p0 =
     (let p = p0\<lparr>last_idx := Some i\<rparr> in
      if mode p = expecting_key then
        (if special then Inl (IncompleteKeyValuePairError i)
         else Inr (p\<lparr>current_key := Some token, mode := expecting_colon\<rparr>))
      else if mode p = expecting_colon \<and> special then
        (if token = '':'' \<and> special then Inr (p\<lparr>mode := expecting_value\<rparr>)
         else Inl (MissingColonError i))
      else if mode p = expecting_value then
        (if special \<and> token \<noteq> ''['' then Inl (UnexpectedSpecialCharacterError i)
         else if token = ''['' \<and> special then Inr (p\<lparr>mode := expecting_list_value\<rparr>)
         else Inr ((flush_key_value (flush_value token p))\<lparr>mode := expecting_key_comma\<rparr>))
      else if mode p = expecting_list_value then
        (if token = '':'' \<and> special then Inl (UnexpectedSpecialCharacterError i)
         else if token = '']'' \<and> special then
           (if length (current_value_list p) = 0 then Inl (EmptyListError i)
            else Inl (EmptyValueError i))
         else Inr ((flush_value token p)\<lparr>mode := expecting_list_comma\<rparr>))
      else if mode p = expecting_list_comma then
        (if token = '']'' \<and> special then
           Inr ((flush_key_value p)\<lparr>mode := expecting_key_comma\<rparr>)
         else if token = '','' \<and> special then Inr (p\<lparr>mode := expecting_list_value\<rparr>)
         else Inl (OnlyCommaValidError i))
      else if mode p = expecting_key_comma then
        (if \<not> (token = '','' \<and> special) then Inl (OnlyCommaValidError i)
         else Inr (p\<lparr>mode := expecting_key\<rparr>))
      else Inr p)"

fun parse_loop :: "(string \<times> bool \<times> nat) list \<Rightarrow> parser \<Rightarrow> error + parser" where
  "parse_loop [] p = Inr p"
| "parse_loop ((token, special, i) # rest) p =
     (case parse_token token special i p of
        Inl e \<Rightarrow> Inl e
      | Inr p' \<Rightarrow> parse_loop rest p')"

definition parser_init :: parser where
  "parser_init =
     \<lparr>mode = expecting_key, out = [], current_key = None,
      current_value_list = [], last_idx = None\<rparr>"

text \<open>The checks after the loop. Each of the three \<open>raise\<close> statements evaluates
  \<open>idx + 1\<close> first, which fails when the loop never bound \<open>idx\<close>.\<close>

definition finish :: "parser \<Rightarrow> error + filter_map" where
  "finish p =
     (if mode p = expecting_value then
        (case last_idx p of None \<Rightarrow> Inl UnboundLocalError
         | Some i \<Rightarrow> Inl (EmptyValueError (i + 1)))
      else if mode p = expecting_key then
        (case last_idx p of None \<Rightarrow> Inl UnboundLocalError
         | Some i \<Rightarrow> Inl (EmptyKeyError (i + 1)))
      else if mode p = expecting_colon then
        (case last_idx p of None \<Rightarrow> Inl UnboundLocalError
         | Some i \<Rightarrow> Inl (IncompleteKeyValuePairError (i + 1)))
      else Inr (out (flush_key_value p)))"

definition zipped :: "tokenizer \<Rightarrow> (string \<times> bool \<times> nat) list" where
  "zipped st = zip (tokens st) (zip (specials st) (indices st))"

definition create_dictionary :: "tokenizer \<Rightarrow> error + filter_map" where
  "create_dictionary st =
     (case parse_loop (zipped st) parser_init of
        Inl e \<Rightarrow> Inl e
      | Inr p \<Rightarrow> finish p)"

definition parse :: "string \<Rightarrow> error + filter_map" where
  "parse match_string =
     (case tokenize_match_arg match_string of
        Inl e \<Rightarrow> Inl e
      | Inr st \<Rightarrow> create_dictionary st)"

subsection \<open>The tokenizer without its second comma branch\<close>

text \<open>
  The same tokenizer with the branch \<open>elif char == ","\<close> removed, and the path condition
  under which the source reaches that branch: every test before it in the chain has
  failed (not escaped, not a quote symbol, no active quote, not a special character, not
  a backslash) and the character is a comma.
\<close>

definition tokenize_char_without_comma :: "nat \<Rightarrow> char \<Rightarrow> tokenizer \<Rightarrow> tokenizer" where
  "tokenize_char_without_comma i c st0 =
     (let st = st0\<lparr>idx := Some i\<rparr> in
      if escaped st then
        st\<lparr>current_item := current_item st @ [c], escaped := False\<rparr>
      else if c \<in> set quote_symbols then
        (if c \<in> set (active_quotes st) then
           (let quote_index = index (active_quotes st) c;
                st1 = st\<lparr>active_quotes := take quote_index (active_quotes st)\<rparr>
            in if quote_index \<noteq> 0 then st1\<lparr>current_item := current_item st1 @ [c]\<rparr>
               else st1)
         else st\<lparr>active_quotes := active_quotes st @ [c]\<rparr>)
      else if length (active_quotes st) = 0 then
        (if c \<in> set special_characters then
           (let st1 = flush_current_item False i st;
                st2 = st1\<lparr>current_item := current_item st1 @ [c]\<rparr>
            in flush_current_item True i st2)
         else if c = backslash then
           st\<lparr>escaped := True\<rparr>
         else
           st\<lparr>current_item := current_item st @ [c]\<rparr>)
      else
        st\<lparr>current_item := current_item st @ [c]\<rparr>)"

fun tokenize_loop_without_comma :: "nat \<Rightarrow> string \<Rightarrow> tokenizer \<Rightarrow> tokenizer" where
  "tokenize_loop_without_comma i [] st = st"
| "tokenize_loop_without_comma i (c # cs) st =
     tokenize_loop_without_comma (Suc i) cs (tokenize_char_without_comma i c st)"

definition tokenize_match_arg_without_comma :: "string \<Rightarrow> error + tokenizer" where
  "tokenize_match_arg_without_comma match_string =
     (let st = tokenize_loop_without_comma 0 match_string tokenizer_init in
      case idx st of
        None \<Rightarrow> Inl UnboundLocalError
      | Some i \<Rightarrow> Inr (flush_current_item False i st))"

definition comma_branch_taken :: "char \<Rightarrow> tokenizer \<Rightarrow> bool" where
  "comma_branch_taken c st =
     (\<not> escaped st \<and> c \<notin> set quote_symbols \<and> length (active_quotes st) = 0 \<and>
      c \<notin> set special_characters \<and> c \<noteq> backslash \<and> c = CHR '','')"

subsection \<open>Notions used to state the properties\<close>

text \<open>The quote stack grows at its end, so the most recent occurrence of a symbol is
  its last one: its position counted from the bottom of the stack.\<close>

definition most_recent_occurrence :: "'a list \<Rightarrow> 'a \<Rightarrow> nat" where
  "most_recent_occurrence stack x = length stack - 1 - index (rev stack) x"

text \<open>No two neighbours of a list of \<open>specials\<close> flags are both plain (\<open>False\<close>).\<close>

fun no_adjacent_plain :: "bool list \<Rightarrow> bool" where
  "no_adjacent_plain (a # b # rest) = ((a \<or> b) \<and> no_adjacent_plain (b # rest))"
| "no_adjacent_plain _ = True"

text \<open>The path condition under which an iteration of the loop of \<open>_create_dictionary\<close>
  matches none of its branches and drops the token: every test of the chain fails.\<close>

definition no_branch_matches :: "bool \<Rightarrow> parser \<Rightarrow> bool" where
  "no_branch_matches special p =
     (mode p \<noteq> expecting_key \<and> \<not> (mode p = expecting_colon \<and> special) \<and>
      mode p \<noteq> expecting_value \<and> mode p \<noteq> expecting_list_value \<and>
      mode p \<noteq> expecting_list_comma \<and> mode p \<noteq> expecting_key_comma)"

subsection \<open>Invariants of the tokenizer loop\<close>

text \<open>A quote symbol is pushed only when it is not on the stack, and the escape flag is
  set only while the stack is empty.\<close>

definition quotes_ok :: "tokenizer \<Rightarrow> bool" where
  "quotes_ok st = (distinct (active_quotes st) \<and> set (active_quotes st) \<subseteq> set quote_symbols \<and>
                  (escaped st \<longrightarrow> active_quotes st = []))"

text \<open>The three token lists grow together.\<close>

definition lists_aligned :: "tokenizer \<Rightarrow> bool" where
  "lists_aligned st = (length (specials st) = length (tokens st) \<and>
                       length (indices st) = length (tokens st))"

text \<open>During the loop, the last token emitted is a special one: a plain token is
  flushed only in front of a special character.\<close>

definition ends_special :: "tokenizer \<Rightarrow> bool" where
  "ends_special st = (no_adjacent_plain (specials st) \<and>
                      (specials st = [] \<or> last (specials st)))"

subsection \<open>Invariant of the parser loop\<close>

text \<open>Between two pairs no key is pending; from the key to the end of its value or list
  the key is set, and the value list is still empty until a list has been opened.\<close>

definition parser_ok :: "parser \<Rightarrow> bool" where
  "parser_ok p =
     (case mode p of
        expecting_key \<Rightarrow> current_key p = None \<and> current_value_list p = []
      | expecting_key_comma \<Rightarrow> current_key p = None \<and> current_value_list p = []
      | expecting_colon \<Rightarrow> current_key p \<noteq> None \<and> current_value_list p = []
      | expecting_value \<Rightarrow> current_key p \<noteq> None \<and> current_value_list p = []
      | expecting_list_value \<Rightarrow> current_key p \<noteq> None
      | expecting_list_comma \<Rightarrow> current_key p \<noteq> None)"

subsection \<open>Expressions made of plain words\<close>

text \<open>A plain character has no meaning to the tokenizer: it is not special, not a quote
  symbol and not the backslash. A plain word is a non-empty string of plain characters,
  the kind of key or value the examples of the specification use.\<close>

definition plain_char :: "char \<Rightarrow> bool" where
  "plain_char c = (c \<notin> set special_characters \<and> c \<notin> set quote_symbols \<and> c \<noteq> backslash)"

definition plain_word :: "string \<Rightarrow> bool" where
  "plain_word w = (w \<noteq> [] \<and> list_all plain_char w)"

text \<open>The values of a list, separated by commas.\<close>

fun join_comma :: "string list \<Rightarrow> string" where
  "join_comma [] = []"
| "join_comma [v] = v"
| "join_comma (v # w # rest) = v @ '','' @ join_comma (w # rest)"

text \<open>The tokens the tokenizer emits for \<open>v1,...,vn]\<close> when \<open>v1\<close> starts at index \<open>i\<close>:
  every value followed by its comma or by the closing bracket, each with the index the
  tokenizer records for it.\<close>

fun list_triples :: "nat \<Rightarrow> string list \<Rightarrow> (string \<times> bool \<times> nat) list" where
  "list_triples i [] = []"
| "list_triples i (v # vs) =
     (v, False, i + length v) # ((if vs = [] then '']'' else '',''), True, i + length v)
       # list_triples (i + length v + 1) vs"

text \<open>The tokenizer is between two tokens, outside quotes and escapes.\<close>

definition ready :: "tokenizer \<Rightarrow> bool" where
  "ready st = (lists_aligned st \<and> \<not> escaped st \<and> active_quotes st = [] \<and> current_item st = [])"

subsection \<open>Results up to the reported index\<close>

text \<open>An error without the index it reports, a parser state without the value of its loop
  variable (only whether it is bound), and a token list without its indices.\<close>

fun without_offset :: "error \<Rightarrow> error" where
  "without_offset (EmptyKeyError i) = EmptyKeyError 0"
| "without_offset (EmptyValueError i) = EmptyValueError 0"
| "without_offset (UnexpectedSpecialCharacterError i) = UnexpectedSpecialCharacterError 0"
| "without_offset (MissingColonError i) = MissingColonError 0"
| "without_offset (KeyValuePairInListError i) = KeyValuePairInListError 0"
| "without_offset (EmptyListError i) = EmptyListError 0"
| "without_offset (OnlyCommaValidError i) = OnlyCommaValidError 0"
| "without_offset (IncompleteKeyValuePairError i) = IncompleteKeyValuePairError 0"
| "without_offset UnboundLocalError = UnboundLocalError"

definition forget_idx :: "parser \<Rightarrow> parser" where
  "forget_idx p = p\<lparr>last_idx := map_option (\<lambda>_. 0) (last_idx p)\<rparr>"

definition texts :: "(string \<times> bool \<times> nat) list \<Rightarrow> (string \<times> bool) list" where
  "texts ts = map (\<lambda>(t, s, i). (t, s)) ts"

subsection \<open>The occurrences of keys in a token sequence\<close>

text \<open>
  Read off the tokens, without the state machine: a key occurs wherever a plain token is
  directly followed by the special colon. Its value is the single token after the colon,
  or, when that token is the special opening bracket, the tokens at the value positions
  of the list that follows: every second token, as long as the token between two values
  is the special comma.
\<close>

fun list_values :: "(string \<times> bool) list \<Rightarrow> string list" where
  "list_values [] = []"
| "list_values [v] = [fst v]"
| "list_values (v # sep # rest) =
     fst v # (if sep = ('','', True) then list_values rest else [])"

fun values_after :: "(string \<times> bool) list \<Rightarrow> string list" where
  "values_after [] = []"
| "values_after ((v, sp) # rest) = (if sp \<and> v = ''['' then list_values rest else [v])"

fun occurrences :: "(string \<times> bool) list \<Rightarrow> (string \<times> string list) list" where
  "occurrences [] = []"
| "occurrences [t] = []"
| "occurrences (t # c # rest) =
     (if \<not> snd t \<and> c = ('':'', True) then [(fst t, values_after rest)] else [])
     @ occurrences (c # rest)"

text \<open>The key occurrences of an expression are those of its tokens.\<close>

definition key_occurrences :: "string \<Rightarrow> (string \<times> string list) list" where
  "key_occurrences e =
     (case tokenize_match_arg e of
        Inl err \<Rightarrow> []
      | Inr st \<Rightarrow> occurrences (zip (tokens st) (specials st)))"

text \<open>The dictionary update of \<open>_flush_key_value\<close>: append to the entry of a key that is
  present, add a new entry at the end otherwise.\<close>

definition merge :: "string \<times> string list \<Rightarrow> filter_map \<Rightarrow> filter_map" where
  "merge kv d = (if fst kv \<in> fst ` set d then extend d (fst kv) (snd kv) else d @ [kv])"

text \<open>The occurrences the parser has still to store when it is in state \<open>p\<close> in front of
  the tokens \<open>ts\<close>: the pair it is reading, with the values collected so far, followed by
  the occurrences among \<open>ts\<close>.\<close>

definition pending_occurrences :: "parser \<Rightarrow> (string \<times> bool) list \<Rightarrow> (string \<times> string list) list" where
  "pending_occurrences p ts =
     (case mode p of
        expecting_key \<Rightarrow> occurrences ts
      | expecting_key_comma \<Rightarrow> occurrences ts
      | expecting_colon \<Rightarrow> occurrences ((the (current_key p), False) # ts)
      | expecting_value \<Rightarrow> (the (current_key p), values_after ts) # occurrences ts
      | expecting_list_value \<Rightarrow>
          (the (current_key p), current_value_list p @ list_values ts) # occurrences ts
      | expecting_list_comma \<Rightarrow>
          (the (current_key p),
           current_value_list p @
             (case ts of [] \<Rightarrow> []
              | sep # r \<Rightarrow> if sep = ('','', True) then list_values r else []))
          # occurrences ts)"

subsection \<open>The text inside an open quote\<close>

text \<open>
  The characters that reach the pending text while a quote stays open, read off the
  input: every character is literal, except that the other quote symbol opens a nested
  level (and is dropped) and its next occurrence closes that level (and is kept). The
  flag tells whether a nested level is open.
\<close>

fun quoted_text :: "bool \<Rightarrow> string \<Rightarrow> string" where
  "quoted_text nested [] = []"
| "quoted_text nested (c # cs) =
     (if c \<in> set quote_symbols
      then (if nested then c # quoted_text False cs else quoted_text True cs)
      else c # quoted_text nested cs)"

text \<open>The tokenizer is inside the quote \<open>q\<close>, with or without a nested level open.\<close>

definition inside_quote :: "char \<Rightarrow> bool \<Rightarrow> tokenizer \<Rightarrow> bool" where
  "inside_quote q nested st =
     (\<not> escaped st \<and>
      active_quotes st = q # (if nested then filter (\<lambda>x. x \<noteq> q) quote_symbols else []))"

section \<open>Properties\<close>

subsection \<open>Basic facts about the tokenizer loop\<close>

lemma idx_flush_current_item [simp]: "idx (flush_current_item sp i st) = idx st"
  by (simp add: flush_current_item_def)

lemma idx_tokenize_char [simp]: "idx (tokenize_char i c st) = Some i"
  by (simp add: tokenize_char_def Let_def)

lemma idx_tokenize_loop:
  "idx (tokenize_loop i e st) = (if e = [] then idx st else Some (i + length e - 1))"
  by (induction e arbitrary: i st) auto

lemma tokenize_loop_append:
  "tokenize_loop i (xs @ ys) st = tokenize_loop (i + length xs) ys (tokenize_loop i xs st)"
  by (induction xs arbitrary: i st) simp_all

subsection \<open>Token positions\<close>

text \<open>
  C1. The claim: every token is recorded at the index of its first character. The
  docstring of \<open>_create_dictionary\<close> gives the indices \<open>[0, 2, 3, 4, 6, 7, 8]\<close> for
  \<open>id:[1a,2a]\<close>. The tokenizer records a plain token at the index of the character that
  ended it: \<open>id\<close> at 2 (its colon), \<open>1a\<close> at 6 and \<open>2a\<close> at 9.
\<close>

theorem C1_docstring_example_indices:
  "map_sum id (\<lambda>st. (tokens st, specials st, indices st)) (tokenize_match_arg ''id:[1a,2a]'')
     = Inr ([''id'', '':'', ''['', ''1a'', '','', ''2a'', '']''],
            [False, True, True, False, True, False, True],
            [2, 2, 3, 6, 6, 9, 9])"
  by code_simp

subsection \<open>The empty expression\<close>

text \<open>
  C2, as stated: the empty expression parses to the empty dictionary and tokenization
  never raises. On the empty string the loop of \<open>_tokenize_match_arg\<close> never binds \<open>idx\<close>,
  and the final flush reads it: tokenization, and so \<open>parse\<close>, ends in
  \<open>UnboundLocalError\<close>.
\<close>

theorem C2_empty_expression_counterexample:
  "tokenize_match_arg [] = Inl UnboundLocalError \<and> parse [] \<noteq> Inr []"
  by (simp add: parse_def tokenize_match_arg_def tokenizer_init_def)

text \<open>
  C2, amended: for every non-empty expression tokenization returns its token lists
  without raising.
\<close>

theorem C2_tokenize_nonempty_returns:
  "e \<noteq> [] \<Longrightarrow> \<exists>st. tokenize_match_arg e = Inr st"
  by (simp add: tokenize_match_arg_def idx_tokenize_loop)

theorem C2_tokenize_nonempty_witness:
  "''a,b:1'' \<noteq> [] \<and> (\<exists>st. tokenize_match_arg ''a,b:1'' = Inr st)"
  using C2_tokenize_nonempty_returns [of "''a,b:1''"] by simp

subsection \<open>A closing bracket where a list value is expected\<close>

text \<open>
  C7. In the state \<open>expecting_list_value\<close> the special token \<open>]\<close> raises \<open>EmptyListError\<close>
  when no value has been collected and \<open>EmptyValueError\<close> otherwise; \<open>a:[1,]\<close> raises
  \<open>EmptyValueError\<close>.
\<close>

theorem C7_closing_bracket_while_expecting_list_value:
  "(mode p = expecting_list_value \<longrightarrow>
      parse_token '']'' True i p =
        (if length (current_value_list p) = 0 then Inl (EmptyListError i)
         else Inl (EmptyValueError i)))
   \<and> parse ''a:[1,]'' = Inl (EmptyValueError 5)"
proof
  show "mode p = expecting_list_value \<longrightarrow>
      parse_token '']'' True i p =
        (if length (current_value_list p) = 0 then Inl (EmptyListError i)
         else Inl (EmptyValueError i))"
    by (simp add: parse_token_def Let_def)
  show "parse ''a:[1,]'' = Inl (EmptyValueError 5)"
    by code_simp
qed

theorem C7_closing_bracket_witness:
  "mode (parser_init\<lparr>mode := expecting_list_value\<rparr>) = expecting_list_value \<and>
   parse_token '']'' True 3 (parser_init\<lparr>mode := expecting_list_value\<rparr>)
     = Inl (EmptyListError 3) \<and>
   mode (parser_init\<lparr>mode := expecting_list_value, current_value_list := [''1'']\<rparr>)
     = expecting_list_value \<and>
   parse_token '']'' True 5
       (parser_init\<lparr>mode := expecting_list_value, current_value_list := [''1'']\<rparr>)
     = Inl (EmptyValueError 5)"
  using C7_closing_bracket_while_expecting_list_value
          [of "parser_init\<lparr>mode := expecting_list_value\<rparr>" 3]
        C7_closing_bracket_while_expecting_list_value
          [of "parser_init\<lparr>mode := expecting_list_value, current_value_list := [''1'']\<rparr>" 5]
  by (simp add: parser_init_def)

subsection \<open>The second comma branch of the tokenizer\<close>

lemma tokenize_char_without_comma_eq:
  "tokenize_char_without_comma i c st = tokenize_char i c st"
  by (simp add: tokenize_char_without_comma_def tokenize_char_def special_characters_def Let_def)

lemma tokenize_loop_without_comma_eq:
  "tokenize_loop_without_comma i s st = tokenize_loop i s st"
  by (induction s arbitrary: i st) (simp_all add: tokenize_char_without_comma_eq)

text \<open>
  C8. No state and character satisfy the path condition of the branch
  \<open>elif char == ","\<close>, since the comma is one of \<open>special_characters\<close>, tested before it;
  the tokenizer without that branch returns the same result on every input.
\<close>

theorem C8_comma_branch_unreachable:
  "\<not> comma_branch_taken c st \<and>
   tokenize_match_arg_without_comma s = tokenize_match_arg s"
  by (auto simp: comma_branch_taken_def special_characters_def
      tokenize_match_arg_without_comma_def tokenize_match_arg_def
      tokenize_loop_without_comma_eq)

subsection \<open>Closing a quote\<close>

lemma active_quotes_flush [simp]:
  "active_quotes (flush_current_item sp i st) = active_quotes st"
  by (simp add: flush_current_item_def)

lemma escaped_flush [simp]:
  "escaped (flush_current_item sp i st) = escaped st"
  by (simp add: flush_current_item_def)

lemma quotes_ok_tokenize_char: "quotes_ok st \<Longrightarrow> quotes_ok (tokenize_char i c st)"
  by (auto simp: quotes_ok_def tokenize_char_def Let_def dest: in_set_takeD)

lemma quotes_ok_tokenize_loop: "quotes_ok st \<Longrightarrow> quotes_ok (tokenize_loop i s st)"
  by (induction s arbitrary: i st) (simp_all add: quotes_ok_tokenize_char)

lemma quotes_ok_init: "quotes_ok tokenizer_init"
  by (simp add: quotes_ok_def tokenizer_init_def)

lemma index_less: "x \<in> set xs \<Longrightarrow> index xs x < length xs"
  by (induction xs) auto

lemma index_append:
  "index (xs @ ys) x = (if x \<in> set xs then index xs x else length xs + index ys x)"
  by (induction xs) auto

lemma most_recent_distinct:
  "distinct xs \<Longrightarrow> x \<in> set xs \<Longrightarrow> most_recent_occurrence xs x = index xs x"
proof (induction xs)
  case Nil
  then show ?case by simp
next
  case (Cons y ys)
  show ?case
  proof (cases "y = x")
    case True
    with Cons.prems show ?thesis
      by (simp add: most_recent_occurrence_def index_append)
  next
    case False
    with Cons.prems have mem: "x \<in> set ys" and d: "distinct ys" by auto
    from mem have "index (rev ys) x < length ys"
      using index_less [of x "rev ys"] by simp
    moreover from Cons.IH [OF d mem]
    have "length ys - 1 - index (rev ys) x = index ys x"
      by (simp add: most_recent_occurrence_def)
    ultimately show ?thesis using False mem
      by (simp add: most_recent_occurrence_def index_append)
  qed
qed

text \<open>
  C4. After any prefix of the input, when the next character is a quote symbol that is
  on the quote stack, the stack is cut back to the part below the most recent occurrence
  of that symbol, and the character is appended to the pending text exactly when that
  occurrence was not the bottom entry of the stack. (The stack never holds a symbol
  twice, so the first occurrence, which \<open>list.index\<close> finds, is the most recent one; and
  the escape flag is never set while a quote is open.)
\<close>

theorem C4_closing_an_open_quote:
  assumes "st = tokenize_loop 0 pre tokenizer_init"
    and "c \<in> set quote_symbols"
    and "c \<in> set (active_quotes st)"
    and "n = most_recent_occurrence (active_quotes st) c"
    and "st' = tokenize_loop 0 (pre @ [c]) tokenizer_init"
  shows "active_quotes st' = take n (active_quotes st) \<and>
         current_item st' = (if n \<noteq> 0 then current_item st @ [c] else current_item st)"
proof -
  have ok: "quotes_ok st"
    using assms(1) quotes_ok_init by (simp add: quotes_ok_tokenize_loop)
  with assms(3) have ne: "\<not> escaped st" and d: "distinct (active_quotes st)"
    by (auto simp: quotes_ok_def)
  have n: "n = index (active_quotes st) c"
    using assms(4) most_recent_distinct [OF d assms(3)] by simp
  have "st' = tokenize_char (length pre) c st"
    using assms(1,5) by (simp add: tokenize_loop_append)
  with ne assms(2,3) n show ?thesis
    by (simp add: tokenize_char_def Let_def)
qed

theorem C4_closing_an_open_quote_witness:
  "tokenize_loop 0 [CHR 0x22, CHR ''a'', CHR 0x27, CHR ''b''] tokenizer_init =
     \<lparr>tokens = [], specials = [], indices = [], current_item = ''ab'', escaped = False,
      active_quotes = [CHR 0x22, CHR 0x27], idx = Some 3\<rparr> \<and>
   active_quotes (tokenize_loop 0 [CHR 0x22, CHR ''a'', CHR 0x27, CHR ''b'', CHR 0x27] tokenizer_init)
     = [CHR 0x22] \<and>
   current_item (tokenize_loop 0 [CHR 0x22, CHR ''a'', CHR 0x27, CHR ''b'', CHR 0x27] tokenizer_init)
     = ''ab'' @ [CHR 0x27] \<and>
   active_quotes (tokenize_loop 0 [CHR 0x22, CHR ''a'', CHR 0x27, CHR ''b'', CHR 0x22] tokenizer_init)
     = [] \<and>
   current_item (tokenize_loop 0 [CHR 0x22, CHR ''a'', CHR 0x27, CHR ''b'', CHR 0x22] tokenizer_init)
     = ''ab''"
proof -
  let ?pre = "[CHR 0x22, CHR ''a'', CHR 0x27, CHR ''b'']"
  have st: "tokenize_loop 0 ?pre tokenizer_init =
     \<lparr>tokens = [], specials = [], indices = [], current_item = ''ab'', escaped = False,
      active_quotes = [CHR 0x22, CHR 0x27], idx = Some 3\<rparr>"
    by (simp add: tokenize_char_def tokenizer_init_def quote_symbols_def Let_def)
  have n1: "most_recent_occurrence [CHR 0x22, CHR 0x27] (CHR 0x27) = 1"
    and n0: "most_recent_occurrence [CHR 0x22, CHR 0x27] (CHR 0x22) = 0"
    by (simp_all add: most_recent_occurrence_def)
  from C4_closing_an_open_quote [of _ ?pre "CHR 0x27" 1, OF refl _ _ _ refl]
       C4_closing_an_open_quote [of _ ?pre "CHR 0x22" 0, OF refl _ _ _ refl]
  show ?thesis
    unfolding st using n1 n0 by (simp add: quote_symbols_def)
qed

subsection \<open>Plain tokens are never neighbours\<close>

lemma no_adjacent_plain_snoc:
  "no_adjacent_plain (xs @ [a]) = (no_adjacent_plain xs \<and> (xs = [] \<or> last xs \<or> a))"
  by (induction xs rule: no_adjacent_plain.induct) auto

lemma no_adjacent_plain_snoc2:
  "no_adjacent_plain (xs @ [a, b]) =
     (no_adjacent_plain xs \<and> (xs = [] \<or> last xs \<or> a) \<and> (a \<or> b))"
  using no_adjacent_plain_snoc [of "xs @ [a]" b] no_adjacent_plain_snoc [of xs a] by simp

lemma no_adjacent_plain_nth:
  "no_adjacent_plain xs \<Longrightarrow> Suc n < length xs \<Longrightarrow> xs ! n \<or> xs ! Suc n"
proof (induction xs arbitrary: n rule: no_adjacent_plain.induct)
  case (1 a b rest)
  then show ?case by (cases n) auto
qed simp_all

lemma lists_aligned_flush:
  "lists_aligned st \<Longrightarrow> lists_aligned (flush_current_item sp i st)"
  by (simp add: lists_aligned_def flush_current_item_def)

lemma lists_aligned_tokenize_char:
  "lists_aligned st \<Longrightarrow> lists_aligned (tokenize_char i c st)"
  by (simp add: lists_aligned_def tokenize_char_def flush_current_item_def Let_def)

lemma lists_aligned_tokenize_loop:
  "lists_aligned st \<Longrightarrow> lists_aligned (tokenize_loop i s st)"
  by (induction s arbitrary: i st) (simp_all add: lists_aligned_tokenize_char)

lemma ends_special_tokenize_char:
  "ends_special st \<Longrightarrow> ends_special (tokenize_char i c st)"
  by (auto simp: ends_special_def tokenize_char_def flush_current_item_def Let_def
      no_adjacent_plain_snoc no_adjacent_plain_snoc2)

lemma ends_special_tokenize_loop:
  "ends_special st \<Longrightarrow> ends_special (tokenize_loop i s st)"
  by (induction s arbitrary: i st) (simp_all add: ends_special_tokenize_char)

lemma no_adjacent_plain_final_flush:
  "ends_special st \<Longrightarrow> no_adjacent_plain (specials (flush_current_item False i st))"
  by (auto simp: ends_special_def flush_current_item_def no_adjacent_plain_snoc)

lemma tokenize_match_arg_aligned:
  assumes "tokenize_match_arg e = Inr st"
  shows "lists_aligned st"
proof -
  have "lists_aligned (tokenize_loop 0 e tokenizer_init)"
    by (rule lists_aligned_tokenize_loop) (simp add: lists_aligned_def tokenizer_init_def)
  with assms show ?thesis
    by (auto simp: tokenize_match_arg_def Let_def lists_aligned_flush split: option.splits)
qed

lemma tokenize_match_arg_no_adjacent_plain:
  assumes "tokenize_match_arg e = Inr st"
  shows "no_adjacent_plain (specials st)"
proof -
  have "ends_special (tokenize_loop 0 e tokenizer_init)"
    by (rule ends_special_tokenize_loop) (simp add: ends_special_def tokenizer_init_def)
  with assms show ?thesis
    by (auto simp: tokenize_match_arg_def Let_def no_adjacent_plain_final_flush
        split: option.splits)
qed

lemma parse_token_expecting_colon:
  "parse_token tok sp i p = Inr p' \<Longrightarrow> mode p' = expecting_colon \<Longrightarrow> \<not> sp"
  by (cases "mode p")
     (auto simp: parse_token_def Let_def flush_key_value_def flush_value_def
           split: if_splits option.splits)

lemma parse_loop_expecting_colon:
  "parse_loop ts p0 = Inr p \<Longrightarrow> mode p = expecting_colon \<Longrightarrow>
   (ts = [] \<and> mode p0 = expecting_colon) \<or> (ts \<noteq> [] \<and> \<not> fst (snd (last ts)))"
proof (induction ts p0 rule: parse_loop.induct)
  case (1 p0)
  then show ?case by simp
next
  case (2 tok sp i rest p0)
  from "2.prems"(1) obtain p1 where
    step: "parse_token tok sp i p0 = Inr p1" and rest: "parse_loop rest p1 = Inr p"
    by (auto split: sum.splits)
  show ?case
  proof (cases rest)
    case Nil
    with rest have "p1 = p" by simp
    with step "2.prems"(2) have "\<not> sp" by (auto dest: parse_token_expecting_colon)
    with Nil show ?thesis by simp
  next
    case (Cons t rest')
    with "2.IH" [OF step rest "2.prems"(2)] show ?thesis by simp
  qed
qed

text \<open>
  C9. The \<open>specials\<close> list the tokenizer returns has no two neighbouring plain tokens.
  So whenever the parser, started on the tokenizer's output, is in \<open>expecting_colon\<close>
  after some tokens, the next token is special, and the iteration that would match no
  branch and drop a plain token does not occur.
\<close>

theorem C9_no_adjacent_plain_tokens:
  assumes "tokenize_match_arg e = Inr st"
  shows "no_adjacent_plain (specials st) \<and>
         (\<forall>n p. n < length (zipped st) \<and>
                 parse_loop (take n (zipped st)) parser_init = Inr p \<and>
                 mode p = expecting_colon
                 \<longrightarrow> fst (snd (zipped st ! n)) \<and>
                     \<not> no_branch_matches (fst (snd (zipped st ! n))) p)"
proof (intro conjI allI impI)
  show nap: "no_adjacent_plain (specials st)"
    using assms by (rule tokenize_match_arg_no_adjacent_plain)
  fix n p
  assume h: "n < length (zipped st) \<and>
             parse_loop (take n (zipped st)) parser_init = Inr p \<and>
             mode p = expecting_colon"
  have al: "lists_aligned st" using assms by (rule tokenize_match_arg_aligned)
  then have len: "length (zipped st) = length (specials st)"
    by (simp add: zipped_def lists_aligned_def)
  have nth: "\<And>k. k < length (specials st) \<Longrightarrow> fst (snd (zipped st ! k)) = specials st ! k"
    using al by (simp add: zipped_def lists_aligned_def)
  from h parse_loop_expecting_colon [of "take n (zipped st)" parser_init p]
  have ne: "take n (zipped st) \<noteq> []" and pl: "\<not> fst (snd (last (take n (zipped st))))"
    by (auto simp: parser_init_def)
  from ne h obtain k where k: "n = Suc k" by (cases n) auto
  with h have "last (take n (zipped st)) = zipped st ! k"
    by (simp add: take_Suc_conv_app_nth)
  with pl nth [of k] k h len have "\<not> specials st ! k" by simp
  moreover from no_adjacent_plain_nth [OF nap, of k] k h len
  have "specials st ! k \<or> specials st ! n" by simp
  ultimately have "specials st ! n" by simp
  with nth [of n] h len show sp: "fst (snd (zipped st ! n))" by simp
  from sp h show "\<not> no_branch_matches (fst (snd (zipped st ! n))) p"
    by (simp add: no_branch_matches_def)
qed

theorem C9_no_adjacent_plain_tokens_witness:
  "specials (projr (tokenize_match_arg ''a:1,b:[2,3]'')) =
      [False, True, False, True, False, True, True, False, True, False, True] \<and>
   no_adjacent_plain (specials (projr (tokenize_match_arg ''a:1,b:[2,3]''))) \<and>
   mode (projr (parse_loop (take 5 (zipped (projr (tokenize_match_arg ''a:1,b:[2,3]'')))) parser_init))
     = expecting_colon \<and>
   fst (snd (zipped (projr (tokenize_match_arg ''a:1,b:[2,3]'')) ! 5))"
proof -
  obtain st where st: "tokenize_match_arg ''a:1,b:[2,3]'' = Inr st"
    by (auto simp: tokenize_match_arg_def idx_tokenize_loop)
  have z: "zipped (projr (tokenize_match_arg ''a:1,b:[2,3]'')) =
     [(''a'', False, 1), ('':'', True, 1), (''1'', False, 3), ('','', True, 3),
      (''b'', False, 5), ('':'', True, 5), (''['', True, 6), (''2'', False, 8),
      ('','', True, 8), (''3'', False, 10), ('']'', True, 10)]"
    by code_simp
  have sp: "specials (projr (tokenize_match_arg ''a:1,b:[2,3]'')) =
      [False, True, False, True, False, True, True, False, True, False, True]"
    by code_simp
  have run: "parse_loop (take 5 (zipped (projr (tokenize_match_arg ''a:1,b:[2,3]'')))) parser_init
      = Inr \<lparr>mode = expecting_colon, out = [(''a'', [''1''])], current_key = Some ''b'',
             current_value_list = [], last_idx = Some 5\<rparr>"
    unfolding z by code_simp
  from C9_no_adjacent_plain_tokens [OF st] st z run sp
  show ?thesis by simp
qed

subsection \<open>The parser invariant and the dictionary update\<close>

lemma parser_ok_parse_token:
  assumes "parser_ok p" and "parse_token tok sp i p = Inr p'"
  shows "parser_ok p'"
proof (cases "mode p")
  case expecting_key
  with assms show ?thesis
    by (auto simp: parser_ok_def parse_token_def Let_def split: if_splits)
next
  case expecting_colon
  with assms show ?thesis
    by (auto simp: parser_ok_def parse_token_def Let_def split: if_splits)
next
  case expecting_value
  with assms obtain k where "current_key p = Some k" by (auto simp: parser_ok_def)
  with expecting_value assms show ?thesis
    by (auto simp: parser_ok_def parse_token_def Let_def flush_key_value_def flush_value_def
        split: if_splits)
next
  case expecting_list_value
  with assms show ?thesis
    by (auto simp: parser_ok_def parse_token_def Let_def flush_value_def split: if_splits)
next
  case expecting_list_comma
  with assms obtain k where "current_key p = Some k" by (auto simp: parser_ok_def)
  with expecting_list_comma assms show ?thesis
    by (auto simp: parser_ok_def parse_token_def Let_def flush_key_value_def split: if_splits)
next
  case expecting_key_comma
  with assms show ?thesis
    by (auto simp: parser_ok_def parse_token_def Let_def split: if_splits)
qed

lemma parser_ok_parse_loop:
  "parser_ok p \<Longrightarrow> parse_loop ts p = Inr p' \<Longrightarrow> parser_ok p'"
proof (induction ts p rule: parse_loop.induct)
  case (1 p)
  then show ?case by simp
next
  case (2 tok sp i rest p)
  from "2.prems"(2) obtain p1 where
    step: "parse_token tok sp i p = Inr p1" and rest: "parse_loop rest p1 = Inr p'"
    by (auto split: sum.splits)
  from "2.prems"(1) step have "parser_ok p1" by (rule parser_ok_parse_token)
  with "2.IH" [OF step] rest show ?case by simp
qed

lemma parser_ok_init: "parser_ok parser_init"
  by (simp add: parser_ok_def parser_init_def)

lemma map_of_extend:
  "map_of (extend d k vs) k' =
     (if k' = k then map_option (\<lambda>old. old @ vs) (map_of d k) else map_of d k')"
  by (induction d) (auto simp: extend_def)

lemma in_keys_iff: "k \<in> fst ` set d \<longleftrightarrow> map_of d k \<noteq> None"
  by (simp add: map_of_eq_None_iff)

lemma map_of_flush_key_value:
  "current_key p = Some k \<Longrightarrow>
   map_of (out (flush_key_value p)) k' =
     (if k' = k
      then Some ((case map_of (out p) k of None \<Rightarrow> [] | Some old \<Rightarrow> old) @ current_value_list p)
      else map_of (out p) k')"
  by (auto simp: flush_key_value_def map_of_extend in_keys_iff map_add_def
      split: option.splits)

subsection \<open>A key with a bracketed list\<close>

lemma tokenize_char_plain:
  "\<not> escaped st \<Longrightarrow> active_quotes st = [] \<Longrightarrow> plain_char c \<Longrightarrow>
   tokenize_char i c st = st\<lparr>idx := Some i, current_item := current_item st @ [c]\<rparr>"
  by (auto simp: tokenize_char_def plain_char_def Let_def special_characters_def)

lemma tokenize_loop_plain:
  "\<not> escaped st \<Longrightarrow> active_quotes st = [] \<Longrightarrow> list_all plain_char w \<Longrightarrow> w \<noteq> [] \<Longrightarrow>
   tokenize_loop i w st =
     st\<lparr>idx := Some (i + length w - 1), current_item := current_item st @ w\<rparr>"
proof (induction w arbitrary: i st)
  case Nil
  then show ?case by simp
next
  case (Cons c w)
  show ?case
  proof (cases "w = []")
    case True
    with Cons.prems show ?thesis by (simp add: tokenize_char_plain)
  next
    case False
    let ?st = "st\<lparr>idx := Some i, current_item := current_item st @ [c]\<rparr>"
    from Cons.prems have "tokenize_loop (Suc i) w ?st =
        ?st\<lparr>idx := Some (Suc i + length w - 1), current_item := current_item ?st @ w\<rparr>"
      using False by (intro Cons.IH) simp_all
    with Cons.prems False show ?thesis by (simp add: tokenize_char_plain)
  qed
qed

lemma special_not_quote: "c \<in> set special_characters \<Longrightarrow> c \<notin> set quote_symbols"
  by (auto simp: special_characters_def quote_symbols_def)

lemma zipped_snoc:
  "lists_aligned st \<Longrightarrow>
   zipped (st\<lparr>tokens := tokens st @ [t], indices := indices st @ [i],
              specials := specials st @ [s], current_item := ci\<rparr>) = zipped st @ [(t, s, i)]"
  by (simp add: zipped_def lists_aligned_def)

lemma tokenize_char_special_pending:
  assumes "lists_aligned st" "\<not> escaped st" "active_quotes st = []"
    "c \<in> set special_characters" "current_item st \<noteq> []"
  shows "zipped (tokenize_char i c st) = zipped st @ [(current_item st, False, i), ([c], True, i)]"
    and "ready (tokenize_char i c st)" and "idx (tokenize_char i c st) = Some i"
  using assms special_not_quote [OF assms(4)]
  by (simp_all add: tokenize_char_def flush_current_item_def Let_def zipped_def
      lists_aligned_def ready_def)

lemma tokenize_char_special_ready:
  assumes "ready st" "c \<in> set special_characters"
  shows "zipped (tokenize_char i c st) = zipped st @ [([c], True, i)]"
    and "ready (tokenize_char i c st)" and "idx (tokenize_char i c st) = Some i"
  using assms special_not_quote [OF assms(2)]
  by (simp_all add: tokenize_char_def flush_current_item_def Let_def zipped_def
      lists_aligned_def ready_def)

lemma tokenize_word_special:
  assumes "ready st" "plain_word w" "c \<in> set special_characters"
  shows "zipped (tokenize_loop i (w @ [c]) st) =
           zipped st @ [(w, False, i + length w), ([c], True, i + length w)]"
    and "ready (tokenize_loop i (w @ [c]) st)"
    and "idx (tokenize_loop i (w @ [c]) st) = Some (i + length w)"
proof -
  let ?st = "st\<lparr>idx := Some (i + length w - 1), current_item := current_item st @ w\<rparr>"
  from assms(1,2) have w: "tokenize_loop i w st = ?st"
    by (intro tokenize_loop_plain) (simp_all add: ready_def plain_word_def)
  have st: "lists_aligned ?st" "\<not> escaped ?st" "active_quotes ?st = []" "current_item ?st = w"
    "w \<noteq> []" "zipped ?st = zipped st"
    using assms(1,2) by (simp_all add: ready_def lists_aligned_def plain_word_def zipped_def)
  have step: "tokenize_loop i (w @ [c]) st = tokenize_char (i + length w) c ?st"
    by (simp add: tokenize_loop_append w)
  show "zipped (tokenize_loop i (w @ [c]) st) =
           zipped st @ [(w, False, i + length w), ([c], True, i + length w)]"
    unfolding step using tokenize_char_special_pending(1) [of ?st c "i + length w"] st assms(3)
    by simp
  show "ready (tokenize_loop i (w @ [c]) st)"
    unfolding step using tokenize_char_special_pending(2) [of ?st c "i + length w"] st assms(3)
    by simp
  show "idx (tokenize_loop i (w @ [c]) st) = Some (i + length w)"
    unfolding step by simp
qed

lemma tokenize_list:
  "ready st \<Longrightarrow> vs \<noteq> [] \<Longrightarrow> list_all plain_word vs \<Longrightarrow>
   zipped (tokenize_loop i (join_comma vs @ '']'') st) = zipped st @ list_triples i vs \<and>
   ready (tokenize_loop i (join_comma vs @ '']'') st) \<and>
   idx (tokenize_loop i (join_comma vs @ '']'') st) \<noteq> None"
proof (induction vs arbitrary: i st rule: join_comma.induct)
  case 1
  then show ?case by simp
next
  case (2 v)
  then have "plain_word v" and c: "CHR '']'' \<in> set special_characters"
    by (simp_all add: special_characters_def)
  from tokenize_word_special [OF "2.prems"(1) this, of i] show ?case by simp
next
  case (3 v w rest)
  then have v: "plain_word v" and c: "CHR '','' \<in> set special_characters"
    and rest: "list_all plain_word (w # rest)"
    by (simp_all add: special_characters_def)
  let ?st = "tokenize_loop i (v @ '','') st"
  note first = tokenize_word_special [OF "3.prems"(1) v c, of i]
  have split: "tokenize_loop i (join_comma (v # w # rest) @ '']'') st =
          tokenize_loop (i + length v + 1) (join_comma (w # rest) @ '']'') ?st"
    using tokenize_loop_append [of i "v @ '',''" "join_comma (w # rest) @ '']''" st] by simp
  from "3.IH" [OF first(2) _ rest, of "i + length v + 1"] first(1)
  show ?case unfolding split by simp
qed

lemma parse_loop_append:
  "parse_loop (xs @ ys) p =
     (case parse_loop xs p of Inl e \<Rightarrow> Inl e | Inr p' \<Rightarrow> parse_loop ys p')"
  by (induction xs p rule: parse_loop.induct) (auto split: sum.splits)

lemma parse_token_list_value:
  "mode p = expecting_list_value \<Longrightarrow>
   parse_token v False j p =
     Inr (p\<lparr>last_idx := Some j, current_value_list := current_value_list p @ [v],
            mode := expecting_list_comma\<rparr>)"
  by (simp add: parse_token_def Let_def flush_value_def)

lemma parse_token_list_comma:
  "mode p = expecting_list_comma \<Longrightarrow>
   parse_token '','' True j p = Inr (p\<lparr>last_idx := Some j, mode := expecting_list_value\<rparr>)"
  by (simp add: parse_token_def Let_def)

lemma parse_token_list_close:
  "mode p = expecting_list_comma \<Longrightarrow> current_key p = Some k \<Longrightarrow>
   parse_token '']'' True j p =
     Inr (p\<lparr>last_idx := Some j, mode := expecting_key_comma,
            out := (if k \<in> fst ` set (out p) then extend (out p) k (current_value_list p)
                    else out p @ [(k, current_value_list p)]),
            current_value_list := [], current_key := None\<rparr>)"
  by (simp add: parse_token_def Let_def flush_key_value_def)

lemma parse_loop_list_triples:
  "mode p = expecting_list_value \<Longrightarrow> current_key p = Some k \<Longrightarrow> vs \<noteq> [] \<Longrightarrow>
   \<exists>j. parse_loop (list_triples i vs) p =
     Inr (p\<lparr>last_idx := Some j, mode := expecting_key_comma,
            out := (if k \<in> fst ` set (out p)
                    then extend (out p) k (current_value_list p @ vs)
                    else out p @ [(k, current_value_list p @ vs)]),
            current_value_list := [], current_key := None\<rparr>)"
proof (induction vs arbitrary: i p)
  case Nil
  then show ?case by simp
next
  case (Cons v vs)
  let ?j = "i + length v"
  let ?p1 = "p\<lparr>last_idx := Some ?j, current_value_list := current_value_list p @ [v],
               mode := expecting_list_comma\<rparr>"
  have s1: "parse_token v False ?j p = Inr ?p1"
    using Cons.prems(1) by (rule parse_token_list_value)
  show ?case
  proof (cases "vs = []")
    case True
    have "parse_token '']'' True ?j ?p1 =
      Inr (?p1\<lparr>last_idx := Some ?j, mode := expecting_key_comma,
            out := (if k \<in> fst ` set (out ?p1) then extend (out ?p1) k (current_value_list ?p1)
                    else out ?p1 @ [(k, current_value_list ?p1)]),
            current_value_list := [], current_key := None\<rparr>)"
      using Cons.prems(2) by (intro parse_token_list_close) simp_all
    with s1 True show ?thesis by (intro exI [of _ ?j]) simp
  next
    case False
    let ?p2 = "?p1\<lparr>last_idx := Some ?j, mode := expecting_list_value\<rparr>"
    have s2: "parse_token '','' True ?j ?p1 = Inr ?p2"
      by (intro parse_token_list_comma) simp
    from Cons.IH [of ?p2 "?j + 1"] Cons.prems(2) False
    obtain j where "parse_loop (list_triples (?j + 1) vs) ?p2 =
       Inr (?p2\<lparr>last_idx := Some j, mode := expecting_key_comma,
            out := (if k \<in> fst ` set (out ?p2)
                    then extend (out ?p2) k (current_value_list ?p2 @ vs)
                    else out ?p2 @ [(k, current_value_list ?p2 @ vs)]),
            current_value_list := [], current_key := None\<rparr>)"
      by auto
    with s1 s2 False show ?thesis by (intro exI [of _ j]) simp
  qed
qed

lemma parse_loop_list_head:
  "parse_loop [(key, False, n), ('':'', True, n), (''['', True, Suc n)] parser_init =
     Inr \<lparr>mode = expecting_list_value, out = [], current_key = Some key,
          current_value_list = [], last_idx = Some (Suc n)\<rparr>"
  by (simp add: parse_token_def parser_init_def Let_def)

lemma tokenize_list_head:
  assumes "plain_word key"
  shows "zipped (tokenize_loop 0 (key @ '':['') tokenizer_init) =
           [(key, False, length key), ('':'', True, length key), (''['', True, Suc (length key))]"
    and "ready (tokenize_loop 0 (key @ '':['') tokenizer_init)"
proof -
  have r0: "ready tokenizer_init"
    by (simp add: ready_def lists_aligned_def tokenizer_init_def)
  have c: "CHR '':'' \<in> set special_characters" and b: "CHR ''['' \<in> set special_characters"
    by (simp_all add: special_characters_def)
  note first = tokenize_word_special [OF r0 assms c, of 0]
  have split: "tokenize_loop 0 (key @ '':['') tokenizer_init =
        tokenize_char (Suc (length key)) (CHR ''['') (tokenize_loop 0 (key @ '':'') tokenizer_init)"
    using tokenize_loop_append [of 0 "key @ '':''" "''[''" tokenizer_init] by simp
  have z0: "zipped tokenizer_init = []"
    by (simp add: zipped_def tokenizer_init_def)
  show "zipped (tokenize_loop 0 (key @ '':['') tokenizer_init) =
           [(key, False, length key), ('':'', True, length key), (''['', True, Suc (length key))]"
    unfolding split using tokenize_char_special_ready(1) [OF first(2) b] first(1) z0 by simp
  show "ready (tokenize_loop 0 (key @ '':['') tokenizer_init)"
    unfolding split using first(2) b by (rule tokenize_char_special_ready(2))
qed

lemma tokenize_match_arg_ready:
  "ready (tokenize_loop 0 e tokenizer_init) \<Longrightarrow> idx (tokenize_loop 0 e tokenizer_init) \<noteq> None \<Longrightarrow>
   tokenize_match_arg e = Inr (tokenize_loop 0 e tokenizer_init)"
  by (auto simp: tokenize_match_arg_def Let_def ready_def flush_current_item_def)

text \<open>
  C6. For a key and values that are plain words, \<open>key:[v1,...,vn]\<close> with at least one
  value parses to the dictionary with the single entry \<open>key\<close>, holding the values in
  the order listed; \<open>key:[]\<close> raises \<open>EmptyListError\<close>, at the index of the closing
  bracket.
\<close>

theorem C6_bracketed_list:
  assumes "plain_word key" and "list_all plain_word vs"
  shows "parse (key @ '':['' @ join_comma vs @ '']'') =
           (if vs = [] then Inl (EmptyListError (length key + 2)) else Inr [(key, vs)])"
proof -
  let ?n = "length key"
  let ?e = "key @ '':['' @ join_comma vs @ '']''"
  let ?hs = "tokenize_loop 0 (key @ '':['') tokenizer_init"
  let ?st = "tokenize_loop 0 ?e tokenizer_init"
  let ?head = "[(key, False, ?n), ('':'', True, ?n), (''['', True, Suc ?n)]"
  let ?ps = "\<lparr>mode = expecting_list_value, out = [], current_key = Some key,
          current_value_list = [], last_idx = Some (Suc ?n)\<rparr>"
  note head = tokenize_list_head [OF assms(1)]
  have "?e = (key @ '':['') @ (join_comma vs @ '']'')" by simp
  then have "?st = tokenize_loop (0 + length (key @ '':['')) (join_comma vs @ '']'') ?hs"
    by (simp only: tokenize_loop_append)
  then have split: "?st = tokenize_loop (?n + 2) (join_comma vs @ '']'') ?hs"
    by simp
  show ?thesis
  proof (cases "vs = []")
    case True
    have b: "CHR '']'' \<in> set special_characters"
      by (simp add: special_characters_def)
    from True split have st: "?st = tokenize_char (?n + 2) (CHR '']'') ?hs" by simp
    note last = tokenize_char_special_ready [OF head(2) b, of "?n + 2"]
    have tk: "tokenize_match_arg ?e = Inr ?st"
    proof (rule tokenize_match_arg_ready)
      show "ready ?st" unfolding st by (rule last(2))
      show "idx ?st \<noteq> None" unfolding st using last(3) by simp
    qed
    have z: "zipped ?st = ?head @ [('']'', True, ?n + 2)]"
      unfolding st using last(1) head(1) by simp
    have "parse_loop (zipped ?st) parser_init = Inl (EmptyListError (?n + 2))"
      unfolding z parse_loop_append parse_loop_list_head
      by (simp add: parse_token_def Let_def)
    with tk True show ?thesis
      by (simp add: parse_def create_dictionary_def)
  next
    case False
    note rest = tokenize_list [OF head(2) False assms(2), of "?n + 2"]
    have z: "zipped ?st = ?head @ list_triples (?n + 2) vs"
      unfolding split using rest head(1) by simp
    have r: "ready ?st"
      unfolding split using rest by simp
    have i: "idx ?st \<noteq> None"
      unfolding split using rest by simp
    have tk: "tokenize_match_arg ?e = Inr ?st"
      using r i by (rule tokenize_match_arg_ready)
    from parse_loop_list_triples [of ?ps key vs "?n + 2"] False
    obtain j where "parse_loop (list_triples (?n + 2) vs) ?ps =
        Inr \<lparr>mode = expecting_key_comma, out = [(key, vs)], current_key = None,
             current_value_list = [], last_idx = Some j\<rparr>"
      by auto
    then have "parse_loop (zipped ?st) parser_init =
        Inr \<lparr>mode = expecting_key_comma, out = [(key, vs)], current_key = None,
             current_value_list = [], last_idx = Some j\<rparr>"
      unfolding z parse_loop_append parse_loop_list_head by simp
    with tk False show ?thesis
      by (simp add: parse_def create_dictionary_def finish_def flush_key_value_def)
  qed
qed

theorem C6_bracketed_list_witness:
  "plain_word ''key'' \<and> list_all plain_word [''v1'', ''v2'', ''v3''] \<and>
   parse ''key:[v1,v2,v3]'' = Inr [(''key'', [''v1'', ''v2'', ''v3''])] \<and>
   list_all plain_word [] \<and> parse ''key:[]'' = Inl (EmptyListError 5)"
proof -
  have k: "plain_word ''key''"
    by (simp add: plain_word_def plain_char_def special_characters_def quote_symbols_def
        backslash_def)
  have vs: "list_all plain_word [''v1'', ''v2'', ''v3'']"
    by (simp add: plain_word_def plain_char_def special_characters_def quote_symbols_def
        backslash_def)
  have e: "list_all plain_word []" by simp
  from C6_bracketed_list [OF k vs] C6_bracketed_list [OF k e] k vs
  show ?thesis by simp
qed

subsection \<open>The input ends inside a quote\<close>

lemma forget_idx_fields [simp]:
  "mode (forget_idx p) = mode p" "out (forget_idx p) = out p"
  "current_key (forget_idx p) = current_key p"
  "current_value_list (forget_idx p) = current_value_list p"
  "last_idx (forget_idx p) = map_option (\<lambda>_. 0) (last_idx p)"
  by (simp_all add: forget_idx_def)

lemma forget_idx_eqD:
  assumes "forget_idx p = forget_idx p'"
  shows "mode p = mode p'" "out p = out p'" "current_key p = current_key p'"
    "current_value_list p = current_value_list p'"
    "last_idx p = None \<longleftrightarrow> last_idx p' = None"
proof -
  from assms have "mode (forget_idx p) = mode (forget_idx p')"
    "out (forget_idx p) = out (forget_idx p')"
    "current_key (forget_idx p) = current_key (forget_idx p')"
    "current_value_list (forget_idx p) = current_value_list (forget_idx p')"
    "last_idx (forget_idx p) = last_idx (forget_idx p')"
    by simp_all
  then show "mode p = mode p'" "out p = out p'" "current_key p = current_key p'"
    "current_value_list p = current_value_list p'"
    "last_idx p = None \<longleftrightarrow> last_idx p' = None"
    by (simp_all add: map_option_case split: option.splits)
qed

lemma forget_idx_eqI:
  "mode p = mode p' \<Longrightarrow> out p = out p' \<Longrightarrow> current_key p = current_key p' \<Longrightarrow>
   current_value_list p = current_value_list p' \<Longrightarrow>
   (last_idx p = None \<longleftrightarrow> last_idx p' = None) \<Longrightarrow> forget_idx p = forget_idx p'"
  by (cases p; cases p') (auto simp: forget_idx_def)

lemma parse_token_forget:
  assumes "forget_idx p = forget_idx p'"
  shows "map_sum without_offset forget_idx (parse_token t s i p) =
         map_sum without_offset forget_idx (parse_token t s j p')"
proof -
  note eq = forget_idx_eqD [OF assms]
  show ?thesis
  proof (cases "mode p")
    case expecting_key
    with eq show ?thesis
      by (auto simp: parse_token_def Let_def intro!: forget_idx_eqI)
  next
    case expecting_colon
    with eq show ?thesis
      by (auto simp: parse_token_def Let_def intro!: forget_idx_eqI)
  next
    case expecting_value
    with eq show ?thesis
      by (auto simp: parse_token_def Let_def flush_key_value_def flush_value_def
          intro!: forget_idx_eqI split: option.splits)
  next
    case expecting_list_value
    with eq show ?thesis
      by (auto simp: parse_token_def Let_def flush_value_def intro!: forget_idx_eqI)
  next
    case expecting_list_comma
    with eq show ?thesis
      by (auto simp: parse_token_def Let_def flush_key_value_def
          intro!: forget_idx_eqI split: option.splits)
  next
    case expecting_key_comma
    with eq show ?thesis
      by (auto simp: parse_token_def Let_def intro!: forget_idx_eqI)
  qed
qed

lemma parse_loop_forget:
  "texts ts = texts ts' \<Longrightarrow> forget_idx p = forget_idx p' \<Longrightarrow>
   map_sum without_offset forget_idx (parse_loop ts p) =
   map_sum without_offset forget_idx (parse_loop ts' p')"
proof (induction ts p arbitrary: ts' p' rule: parse_loop.induct)
  case (1 p)
  then show ?case by (simp add: texts_def)
next
  case (2 t s i rest p)
  from "2.prems"(1) obtain j rest' where ts': "ts' = (t, s, j) # rest'"
    and rest: "texts rest = texts rest'"
    by (cases ts') (auto simp: texts_def)
  note step = parse_token_forget [OF "2.prems"(2), of t s i j]
  show ?case
  proof (cases "parse_token t s i p")
    case (Inl e)
    with step obtain e' where "parse_token t s j p' = Inl e'" "without_offset e = without_offset e'"
      by (cases "parse_token t s j p'") auto
    with Inl ts' show ?thesis by simp
  next
    case (Inr p1)
    with step obtain p1' where r: "parse_token t s j p' = Inr p1'" "forget_idx p1 = forget_idx p1'"
      by (cases "parse_token t s j p'") auto
    from "2.IH" [OF Inr rest r(2)] Inr r(1) ts' show ?thesis by simp
  qed
qed

lemma finish_forget:
  assumes "forget_idx p = forget_idx p'"
  shows "map_sum without_offset id (finish p) = map_sum without_offset id (finish p')"
proof -
  note eq = forget_idx_eqD [OF assms]
  from eq have "out (flush_key_value p) = out (flush_key_value p')"
    by (simp add: flush_key_value_def split: option.splits)
  with eq show ?thesis
    by (cases "last_idx p"; cases "last_idx p'") (auto simp: finish_def)
qed

lemma create_dictionary_forget:
  assumes "texts (zipped st) = texts (zipped st')"
  shows "map_sum without_offset id (create_dictionary st) =
         map_sum without_offset id (create_dictionary st')"
proof -
  note loop = parse_loop_forget [OF assms refl, of parser_init]
  show ?thesis
  proof (cases "parse_loop (zipped st) parser_init")
    case (Inl e)
    with loop obtain e' where "parse_loop (zipped st') parser_init = Inl e'"
      "without_offset e = without_offset e'"
      by (cases "parse_loop (zipped st') parser_init") auto
    with Inl show ?thesis by (simp add: create_dictionary_def)
  next
    case (Inr p)
    with loop obtain p' where "parse_loop (zipped st') parser_init = Inr p'"
      "forget_idx p = forget_idx p'"
      by (cases "parse_loop (zipped st') parser_init") auto
    with Inr finish_forget [of p p'] show ?thesis by (simp add: create_dictionary_def)
  qed
qed

lemma texts_zip3:
  "length b = length a \<Longrightarrow> length c = length a \<Longrightarrow> texts (zip a (zip b c)) = zip a b"
proof (induction a arbitrary: b c)
  case Nil
  then show ?case by (simp add: texts_def)
next
  case (Cons x a)
  then obtain y b' z c' where "b = y # b'" "c = z # c'"
    by (cases b; cases c) auto
  with Cons show ?case by (simp add: texts_def)
qed

lemma texts_zipped: "lists_aligned st \<Longrightarrow> texts (zipped st) = zip (tokens st) (specials st)"
  by (simp add: zipped_def lists_aligned_def texts_zip3)

lemma index_hd: "xs \<noteq> [] \<Longrightarrow> index xs (hd xs) = 0"
  by (cases xs) simp_all

lemma tokenize_char_close_outermost:
  assumes "quotes_ok st" and "active_quotes st \<noteq> []"
  shows "tokenize_char i (hd (active_quotes st)) st = st\<lparr>idx := Some i, active_quotes := []\<rparr>"
proof -
  from assms have ne: "\<not> escaped st" and q: "hd (active_quotes st) \<in> set quote_symbols"
    and m: "hd (active_quotes st) \<in> set (active_quotes st)"
    by (auto simp: quotes_ok_def)
  with index_hd [OF assms(2)] show ?thesis
    by (simp add: tokenize_char_def Let_def)
qed

text \<open>Closing the outermost open quote at the end of the input changes neither the texts
  nor the flags of the tokens, so \<open>parse\<close> gives the same dictionary or an error of the
  same class.\<close>

lemma closing_outermost_quote:
  assumes "pending = tokenize_loop 0 e tokenizer_init"
    and "active_quotes pending \<noteq> []"
    and "closed = e @ [hd (active_quotes pending)]"
  shows "\<exists>st st'. tokenize_match_arg e = Inr st \<and>
           tokens st = tokens pending @
                         (if current_item pending = [] then [] else [current_item pending]) \<and>
           specials st = specials pending @
                         (if current_item pending = [] then [] else [False]) \<and>
           tokenize_match_arg closed = Inr st' \<and>
           tokens st' = tokens st \<and> specials st' = specials st \<and>
           map_sum without_offset id (parse e) = map_sum without_offset id (parse closed) \<and>
           (\<forall>m. parse e = Inr m \<longleftrightarrow> parse closed = Inr m)"
proof -
  let ?q = "hd (active_quotes pending)"
  have ok: "quotes_ok pending"
    unfolding assms(1) using quotes_ok_init by (rule quotes_ok_tokenize_loop)
  have al: "lists_aligned pending"
    unfolding assms(1)
    by (rule lists_aligned_tokenize_loop) (simp add: lists_aligned_def tokenizer_init_def)
  have "e \<noteq> []"
    using assms(1,2) by (auto simp: tokenizer_init_def)
  then have i: "idx pending = Some (length e - 1)"
    unfolding assms(1) by (simp add: idx_tokenize_loop)
  let ?st = "flush_current_item False (length e - 1) pending"
  let ?pc = "pending\<lparr>idx := Some (length e), active_quotes := []\<rparr>"
  let ?sc = "flush_current_item False (length e) ?pc"
  have tk: "tokenize_match_arg e = Inr ?st"
    using i assms(1) by (simp add: tokenize_match_arg_def)
  have "tokenize_loop 0 closed tokenizer_init = tokenize_char (length e) ?q pending"
    unfolding assms(1,3) by (simp add: tokenize_loop_append)
  also have "\<dots> = ?pc"
    using ok assms(2) by (rule tokenize_char_close_outermost)
  finally have tkc: "tokenize_match_arg closed = Inr ?sc"
    by (simp add: tokenize_match_arg_def)
  have t: "tokens ?st = tokens pending @
             (if current_item pending = [] then [] else [current_item pending])"
    and s: "specials ?st = specials pending @
             (if current_item pending = [] then [] else [False])"
    and tt: "tokens ?sc = tokens ?st" and ss: "specials ?sc = specials ?st"
    by (simp_all add: flush_current_item_def)
  have "lists_aligned ?st" "lists_aligned ?sc"
    using al by (simp_all add: lists_aligned_def flush_current_item_def)
  then have "texts (zipped ?st) = texts (zipped ?sc)"
    using tt ss by (simp add: texts_zipped)
  then have "map_sum without_offset id (create_dictionary ?st) =
             map_sum without_offset id (create_dictionary ?sc)"
    by (rule create_dictionary_forget)
  with tk tkc have same: "map_sum without_offset id (parse e) =
                          map_sum without_offset id (parse closed)"
    by (simp add: parse_def)
  have "\<forall>m. parse e = Inr m \<longleftrightarrow> parse closed = Inr m"
  proof
    fix m
    from same show "parse e = Inr m \<longleftrightarrow> parse closed = Inr m"
      by (cases "parse e"; cases "parse closed") auto
  qed
  with tk tkc t s tt ss same show ?thesis by blast
qed

lemma tokenize_char_inside_quote:
  assumes "q \<in> set quote_symbols" and "c \<noteq> q" and "inside_quote q nested st"
  shows "inside_quote q (if c \<in> set quote_symbols then \<not> nested else nested)
           (tokenize_char i c st)"
    and "current_item (tokenize_char i c st) = current_item st @ quoted_text nested [c]"
    and "tokens (tokenize_char i c st) = tokens st"
    and "specials (tokenize_char i c st) = specials st"
    and "indices (tokenize_char i c st) = indices st"
  using assms
  by (auto simp: inside_quote_def tokenize_char_def quote_symbols_def Let_def)

lemma quoted_text_Cons:
  "quoted_text nested (c # cs) =
     quoted_text nested [c] @ quoted_text (if c \<in> set quote_symbols then \<not> nested else nested) cs"
  by simp

lemma tokenize_loop_inside_quote:
  "q \<in> set quote_symbols \<Longrightarrow> q \<notin> set body \<Longrightarrow> inside_quote q nested st \<Longrightarrow>
   current_item (tokenize_loop i body st) = current_item st @ quoted_text nested body \<and>
   tokens (tokenize_loop i body st) = tokens st \<and>
   specials (tokenize_loop i body st) = specials st \<and>
   indices (tokenize_loop i body st) = indices st"
proof (induction body arbitrary: i nested st)
  case Nil
  then show ?case by simp
next
  case (Cons c body)
  from Cons.prems have c: "c \<noteq> q" and b: "q \<notin> set body" by auto
  note step = tokenize_char_inside_quote [OF Cons.prems(1) c Cons.prems(3), of i]
  from Cons.IH [OF Cons.prems(1) b step(1), of "Suc i"] step(2-5)
  show ?case
    unfolding quoted_text_Cons [of nested c body] by simp
qed

lemma tokenize_char_opens:
  assumes "active_quotes st = []" and "active_quotes (tokenize_char i c st) \<noteq> []"
  shows "\<not> escaped st" and "c \<in> set quote_symbols"
    and "tokenize_char i c st = st\<lparr>idx := Some i, active_quotes := [c]\<rparr>"
  using assms
  by (auto simp: tokenize_char_def Let_def flush_current_item_def split: if_splits)

lemma tokenize_char_stays_open:
  assumes ok: "quotes_ok st" and ne: "active_quotes st \<noteq> []"
    and ne': "active_quotes (tokenize_char i c st) \<noteq> []"
  shows "c \<noteq> hd (active_quotes st)"
    and "hd (active_quotes (tokenize_char i c st)) = hd (active_quotes st)"
proof -
  from ok ne have esc: "\<not> escaped st" and sub: "hd (active_quotes st) \<in> set quote_symbols"
    by (auto simp: quotes_ok_def)
  have "c \<noteq> hd (active_quotes st) \<and>
        hd (active_quotes (tokenize_char i c st)) = hd (active_quotes st)"
  proof (cases "c \<in> set quote_symbols")
    case False
    with esc sub ne show ?thesis
      by (auto simp: tokenize_char_def Let_def flush_current_item_def)
  next
    case True
    show ?thesis
    proof (cases "c \<in> set (active_quotes st)")
      case False
      with True esc ne show ?thesis
        by (auto simp: tokenize_char_def Let_def)
    next
      case mem: True
      with True esc have aq: "active_quotes (tokenize_char i c st) =
          take (index (active_quotes st) c) (active_quotes st)"
        by (simp add: tokenize_char_def Let_def)
      with ne' have n: "index (active_quotes st) c \<noteq> 0" by auto
      with index_hd [OF ne] have "c \<noteq> hd (active_quotes st)" by auto
      moreover from n have "hd (take (index (active_quotes st) c) (active_quotes st)) =
          hd (active_quotes st)"
        by (simp add: hd_take)
      ultimately show ?thesis using aq by simp
    qed
  qed
  then show "c \<noteq> hd (active_quotes st)"
    and "hd (active_quotes (tokenize_char i c st)) = hd (active_quotes st)"
    by simp_all
qed

lemma open_quote_decomposition:
  "active_quotes (tokenize_loop 0 e tokenizer_init) \<noteq> [] \<Longrightarrow>
   \<exists>pre q body. e = pre @ q # body \<and> q \<in> set quote_symbols \<and> q \<notin> set body \<and>
      active_quotes (tokenize_loop 0 pre tokenizer_init) = [] \<and>
      \<not> escaped (tokenize_loop 0 pre tokenizer_init) \<and>
      hd (active_quotes (tokenize_loop 0 e tokenizer_init)) = q"
proof (induction e rule: rev_induct)
  case Nil
  then show ?case by (simp add: tokenizer_init_def)
next
  case (snoc c xs)
  let ?sx = "tokenize_loop 0 xs tokenizer_init"
  have step: "tokenize_loop 0 (xs @ [c]) tokenizer_init = tokenize_char (length xs) c ?sx"
    by (simp add: tokenize_loop_append)
  from snoc.prems have ne': "active_quotes (tokenize_char (length xs) c ?sx) \<noteq> []"
    unfolding step .
  show ?case
  proof (cases "active_quotes ?sx = []")
    case True
    note opens = tokenize_char_opens [OF True ne']
    have "xs @ [c] = xs @ c # [] \<and> c \<in> set quote_symbols \<and> c \<notin> set [] \<and>
          active_quotes ?sx = [] \<and> \<not> escaped ?sx \<and>
          hd (active_quotes (tokenize_loop 0 (xs @ [c]) tokenizer_init)) = c"
      unfolding step using True opens by simp
    then show ?thesis by blast
  next
    case False
    from snoc.IH [OF False] obtain pre q body where
      dec: "xs = pre @ q # body" "q \<in> set quote_symbols" "q \<notin> set body"
        "active_quotes (tokenize_loop 0 pre tokenizer_init) = []"
        "\<not> escaped (tokenize_loop 0 pre tokenizer_init)"
        "hd (active_quotes ?sx) = q"
      by blast
    have ok: "quotes_ok ?sx"
      using quotes_ok_init by (rule quotes_ok_tokenize_loop)
    note stays = tokenize_char_stays_open [OF ok False ne']
    have "xs @ [c] = pre @ q # (body @ [c]) \<and> q \<in> set quote_symbols \<and>
          q \<notin> set (body @ [c]) \<and>
          active_quotes (tokenize_loop 0 pre tokenizer_init) = [] \<and>
          \<not> escaped (tokenize_loop 0 pre tokenizer_init) \<and>
          hd (active_quotes (tokenize_loop 0 (xs @ [c]) tokenizer_init)) = q"
      unfolding step using dec stays by auto
    then show ?thesis by blast
  qed
qed

text \<open>
  C10, as stated: an expression that ends with quotes open is parsed exactly as if the
  quote had been closed there. With two quotes open this fails for the quote opened
  last: a closing symbol that is not the bottom entry of the stack is appended to the
  text, so \<open>a:"x'y\<close> gives the value \<open>xy\<close> and \<open>a:"x'y'\<close> the value \<open>xy'\<close>.
\<close>

theorem C10_nested_quote_counterexample:
  "active_quotes (tokenize_loop 0 [CHR ''a'', CHR '':'', CHR 0x22, CHR ''x'', CHR 0x27, CHR ''y'']
                    tokenizer_init) = [CHR 0x22, CHR 0x27] \<and>
   parse [CHR ''a'', CHR '':'', CHR 0x22, CHR ''x'', CHR 0x27, CHR ''y'']
     = Inr [(''a'', [''xy''])] \<and>
   parse [CHR ''a'', CHR '':'', CHR 0x22, CHR ''x'', CHR 0x27, CHR ''y'', CHR 0x27]
     = Inr [(''a'', [[CHR ''x'', CHR ''y'', CHR 0x27]])]"
  by code_simp

text \<open>
  C10, amended: an input that ends with quotes open splits into the text before the
  outermost open quote, that quote symbol, and the quoted text after it. Tokenization
  raises nothing; the quoted characters (all but the symbol that opens a nested quote)
  are flushed at the end of the input as an ordinary plain token, after any text that
  was pending in front of the quote; and the expression with the outermost quote closed
  at its end has the same token texts and flags and parses to the same dictionary, or
  raises an error of the same class. The index an error carries is not compared.
\<close>

theorem C10_unterminated_quote:
  assumes "active_quotes (tokenize_loop 0 e tokenizer_init) \<noteq> []"
  shows "\<exists>pre q body st st'.
           e = pre @ q # body \<and> q \<in> set quote_symbols \<and> q \<notin> set body \<and>
           active_quotes (tokenize_loop 0 pre tokenizer_init) = [] \<and>
           hd (active_quotes (tokenize_loop 0 e tokenizer_init)) = q \<and>
           tokenize_match_arg e = Inr st \<and>
           tokens st = tokens (tokenize_loop 0 pre tokenizer_init) @
             (if current_item (tokenize_loop 0 pre tokenizer_init) @ quoted_text False body = []
              then []
              else [current_item (tokenize_loop 0 pre tokenizer_init) @ quoted_text False body]) \<and>
           specials st = specials (tokenize_loop 0 pre tokenizer_init) @
             (if current_item (tokenize_loop 0 pre tokenizer_init) @ quoted_text False body = []
              then [] else [False]) \<and>
           tokenize_match_arg (e @ [q]) = Inr st' \<and>
           tokens st' = tokens st \<and> specials st' = specials st \<and>
           map_sum without_offset id (parse (e @ [q])) = map_sum without_offset id (parse e) \<and>
           (\<forall>m. parse e = Inr m \<longleftrightarrow> parse (e @ [q]) = Inr m)"
proof -
  from open_quote_decomposition [OF assms] obtain pre q body where
    dec: "e = pre @ q # body" "q \<in> set quote_symbols" "q \<notin> set body"
      "active_quotes (tokenize_loop 0 pre tokenizer_init) = []"
      "\<not> escaped (tokenize_loop 0 pre tokenizer_init)"
      "hd (active_quotes (tokenize_loop 0 e tokenizer_init)) = q"
    by blast
  let ?before = "tokenize_loop 0 pre tokenizer_init"
  let ?opened = "?before\<lparr>idx := Some (length pre), active_quotes := [q]\<rparr>"
  let ?end = "tokenize_loop 0 e tokenizer_init"
  let ?txt = "current_item ?before @ quoted_text False body"
  have "tokenize_char (length pre) q ?before = ?opened"
    using dec(2,4,5) by (simp add: tokenize_char_def Let_def)
  then have loop: "?end = tokenize_loop (Suc (length pre)) body ?opened"
    unfolding dec(1) by (simp add: tokenize_loop_append)
  have "inside_quote q False ?opened"
    using dec(5) by (simp add: inside_quote_def)
  from tokenize_loop_inside_quote [OF dec(2,3) this, of "Suc (length pre)"]
  have fin: "current_item ?end = ?txt" "tokens ?end = tokens ?before"
    "specials ?end = specials ?before"
    unfolding loop by simp_all
  from closing_outermost_quote [OF refl assms refl]
  obtain st st' where
    r: "tokenize_match_arg e = Inr st"
      "tokens st = tokens ?end @ (if current_item ?end = [] then [] else [current_item ?end])"
      "specials st = specials ?end @ (if current_item ?end = [] then [] else [False])"
      "tokenize_match_arg (e @ [hd (active_quotes ?end)]) = Inr st'"
      "tokens st' = tokens st" "specials st' = specials st"
      "map_sum without_offset id (parse e) =
         map_sum without_offset id (parse (e @ [hd (active_quotes ?end)]))"
      "\<forall>m. parse e = Inr m \<longleftrightarrow> parse (e @ [hd (active_quotes ?end)]) = Inr m"
    by blast
  have "e = pre @ q # body \<and> q \<in> set quote_symbols \<and> q \<notin> set body \<and>
        active_quotes ?before = [] \<and> hd (active_quotes ?end) = q \<and>
        tokenize_match_arg e = Inr st \<and>
        tokens st = tokens ?before @ (if ?txt = [] then [] else [?txt]) \<and>
        specials st = specials ?before @ (if ?txt = [] then [] else [False]) \<and>
        tokenize_match_arg (e @ [q]) = Inr st' \<and>
        tokens st' = tokens st \<and> specials st' = specials st \<and>
        map_sum without_offset id (parse (e @ [q])) = map_sum without_offset id (parse e) \<and>
        (\<forall>m. parse e = Inr m \<longleftrightarrow> parse (e @ [q]) = Inr m)"
    using dec(1-4) r unfolding dec(6) fin by simp
  then show ?thesis by blast
qed

theorem C10_unterminated_quote_witness:
  "active_quotes (tokenize_loop 0 [CHR ''a'', CHR '':'', CHR 0x22, CHR ''x'', CHR ''y'']
                    tokenizer_init) = [CHR 0x22] \<and>
   map_sum id tokens (tokenize_match_arg [CHR ''a'', CHR '':'', CHR 0x22, CHR ''x'', CHR ''y''])
     = Inr [''a'', '':'', ''xy''] \<and>
   parse [CHR ''a'', CHR '':'', CHR 0x22, CHR ''x'', CHR ''y''] = Inr [(''a'', [''xy''])] \<and>
   parse [CHR ''a'', CHR '':'', CHR 0x22, CHR ''x'', CHR ''y'', CHR 0x22] = Inr [(''a'', [''xy''])] \<and>
   active_quotes (tokenize_loop 0 [CHR ''a'', CHR '':'', CHR 0x22, CHR ''x'', CHR 0x27, CHR ''y'']
                    tokenizer_init) = [CHR 0x22, CHR 0x27] \<and>
   parse [CHR ''a'', CHR '':'', CHR 0x22, CHR ''x'', CHR 0x27, CHR ''y'']
     = Inr [(''a'', [''xy''])] \<and>
   parse [CHR ''a'', CHR '':'', CHR 0x22, CHR ''x'', CHR 0x27, CHR ''y'', CHR 0x22]
     = Inr [(''a'', [''xy''])]"
proof -
  let ?e = "[CHR ''a'', CHR '':'', CHR 0x22, CHR ''x'', CHR ''y'']"
  let ?f = "[CHR ''a'', CHR '':'', CHR 0x22, CHR ''x'', CHR 0x27, CHR ''y'']"
  have ae: "active_quotes (tokenize_loop 0 ?e tokenizer_init) = [CHR 0x22]"
    by code_simp
  have af: "active_quotes (tokenize_loop 0 ?f tokenizer_init) = [CHR 0x22, CHR 0x27]"
    by code_simp
  have te: "map_sum id tokens (tokenize_match_arg ?e) = Inr [''a'', '':'', ''xy'']"
    by code_simp
  have pe: "parse ?e = Inr [(''a'', [''xy''])]"
    by code_simp
  have pf: "parse ?f = Inr [(''a'', [''xy''])]"
    by code_simp
  from ae have ne: "active_quotes (tokenize_loop 0 ?e tokenizer_init) \<noteq> []" by simp
  from af have nf: "active_quotes (tokenize_loop 0 ?f tokenizer_init) \<noteq> []" by simp
  from C10_unterminated_quote [OF ne] ae
  have "\<forall>m. parse ?e = Inr m \<longleftrightarrow> parse (?e @ [CHR 0x22]) = Inr m"
    by auto
  with pe have ce: "parse (?e @ [CHR 0x22]) = Inr [(''a'', [''xy''])]"
    by blast
  from C10_unterminated_quote [OF nf] af
  have "\<forall>m. parse ?f = Inr m \<longleftrightarrow> parse (?f @ [CHR 0x22]) = Inr m"
    by auto
  with pf have cf: "parse (?f @ [CHR 0x22]) = Inr [(''a'', [''xy''])]"
    by blast
  from ae af te pe pf ce cf show ?thesis
    by (intro conjI) simp_all
qed

subsection \<open>Repeated keys\<close>

lemma occurrences_Cons:
  "occurrences (t # ts) =
     (if \<not> snd t \<and> ts \<noteq> [] \<and> hd ts = ('':'', True) then [(fst t, values_after (tl ts))] else [])
     @ occurrences ts"
  by (cases ts) auto

lemma list_values_Cons:
  "list_values (t # ts) =
     fst t # (case ts of [] \<Rightarrow> []
              | sep # r \<Rightarrow> if sep = ('','', True) then list_values r else [])"
  by (cases ts) auto

lemma map_of_merge:
  "map_of (merge (k, vs) d) k' =
     (if k' = k then Some ((case map_of d k of None \<Rightarrow> [] | Some old \<Rightarrow> old) @ vs)
      else map_of d k')"
  by (auto simp: merge_def map_of_extend in_keys_iff map_add_def split: option.splits)

lemma map_of_fold_merge:
  "map_of (fold merge occs d) k =
     (if map_of d k = None \<and> k \<notin> fst ` set occs then None
      else Some ((case map_of d k of None \<Rightarrow> [] | Some old \<Rightarrow> old)
                 @ concat (map snd (filter (\<lambda>kv. fst kv = k) occs))))"
proof (induction occs arbitrary: d)
  case Nil
  then show ?case by (auto split: option.splits)
next
  case (Cons kv occs)
  obtain k' vs where kv: "kv = (k', vs)" by (cases kv)
  show ?case
    unfolding kv using Cons.IH [of "merge (k', vs) d"]
    by (auto simp: map_of_merge split: option.splits)
qed

lemma out_flush_key_value:
  "current_key p = Some k \<Longrightarrow>
   out (flush_key_value p) = merge (k, current_value_list p) (out p)"
  by (simp add: flush_key_value_def merge_def)

lemma parse_token_colon_accepted:
  "parse_token '':'' True i p = Inr p' \<Longrightarrow> mode p = expecting_colon"
  by (cases "mode p") (auto simp: parse_token_def Let_def split: if_splits)

lemma parse_token_pending:
  assumes step: "parse_token t s i p = Inr p1"
    and ok: "parser_ok p"
    and sp: "mode p = expecting_colon \<Longrightarrow> s"
    and nxt: "rest \<noteq> [] \<Longrightarrow> hd rest = ('':'', True) \<Longrightarrow> mode p1 = expecting_colon"
  shows "fold merge (pending_occurrences p ((t, s) # rest)) (out p) = fold merge (pending_occurrences p1 rest) (out p1)"
proof (cases "mode p")
  case expecting_key
  with step have "\<not> s" and "mode p1 = expecting_colon" and "current_key p1 = Some t"
    and "out p1 = out p"
    by (auto simp: parse_token_def Let_def split: if_splits)
  with expecting_key show ?thesis by (simp add: pending_occurrences_def)
next
  case expecting_colon
  with sp have s by simp
  with expecting_colon step have t: "t = '':''" and "mode p1 = expecting_value"
    and "current_key p1 = current_key p" and "out p1 = out p"
    by (auto simp: parse_token_def Let_def split: if_splits)
  with expecting_colon \<open>s\<close> show ?thesis
    by (simp add: pending_occurrences_def occurrences_Cons)
next
  case expecting_value
  with ok obtain k where k: "current_key p = Some k" and e: "current_value_list p = []"
    by (auto simp: parser_ok_def)
  show ?thesis
  proof (cases s)
    case True
    with expecting_value step have "t = ''[''" and "mode p1 = expecting_list_value"
      and "current_key p1 = current_key p" and "out p1 = out p"
      and "current_value_list p1 = current_value_list p"
      by (auto simp: parse_token_def Let_def split: if_splits)
    with expecting_value True k e show ?thesis
      by (simp add: pending_occurrences_def occurrences_Cons)
  next
    case False
    with expecting_value step
    have p1: "p1 = (flush_key_value (flush_value t (p\<lparr>last_idx := Some i\<rparr>)))
                     \<lparr>mode := expecting_key_comma\<rparr>"
      by (auto simp: parse_token_def Let_def split: if_splits)
    then have m1: "mode p1 = expecting_key_comma" by simp
    from p1 k e have o1: "out p1 = merge (k, [t]) (out p)"
      by (simp add: out_flush_key_value flush_value_def)
    from m1 nxt have "\<not> (rest \<noteq> [] \<and> hd rest = ('':'', True))" by auto
    then have "occurrences ((t, s) # rest) = occurrences rest"
      by (auto simp: occurrences_Cons)
    with expecting_value False k m1 o1 show ?thesis
      by (simp add: pending_occurrences_def)
  qed
next
  case expecting_list_value
  with ok obtain k where k: "current_key p = Some k"
    by (auto simp: parser_ok_def)
  from expecting_list_value step
  have p1: "p1 = (flush_value t (p\<lparr>last_idx := Some i\<rparr>))\<lparr>mode := expecting_list_comma\<rparr>"
    by (auto simp: parse_token_def Let_def split: if_splits)
  then have m1: "mode p1 = expecting_list_comma" and "out p1 = out p"
    and "current_key p1 = Some k" and "current_value_list p1 = current_value_list p @ [t]"
    using k by (simp_all add: flush_value_def)
  moreover from m1 nxt have "\<not> (rest \<noteq> [] \<and> hd rest = ('':'', True))" by auto
  then have "occurrences ((t, s) # rest) = occurrences rest"
    by (auto simp: occurrences_Cons)
  ultimately show ?thesis using expecting_list_value k
    by (simp add: pending_occurrences_def list_values_Cons)
next
  case expecting_list_comma
  with ok obtain k where k: "current_key p = Some k"
    by (auto simp: parser_ok_def)
  from expecting_list_comma step have s by (auto simp: parse_token_def Let_def split: if_splits)
  from expecting_list_comma step have "t = '']'' \<or> t = '',''"
    by (auto simp: parse_token_def Let_def split: if_splits)
  then show ?thesis
  proof
    assume t: "t = '']''"
    with expecting_list_comma step \<open>s\<close>
    have p1: "p1 = (flush_key_value (p\<lparr>last_idx := Some i\<rparr>))\<lparr>mode := expecting_key_comma\<rparr>"
      by (simp add: parse_token_def Let_def)
    then have m1: "mode p1 = expecting_key_comma" by simp
    from p1 k have "out p1 = merge (k, current_value_list p) (out p)"
      by (simp add: out_flush_key_value)
    with expecting_list_comma m1 t \<open>s\<close> k show ?thesis
      by (simp add: pending_occurrences_def occurrences_Cons)
  next
    assume t: "t = '',''"
    with expecting_list_comma step \<open>s\<close>
    have "p1 = p\<lparr>last_idx := Some i, mode := expecting_list_value\<rparr>"
      by (simp add: parse_token_def Let_def)
    with expecting_list_comma t \<open>s\<close> k show ?thesis
      by (simp add: pending_occurrences_def occurrences_Cons)
  qed
next
  case expecting_key_comma
  with step have s and "t = '',''" and "p1 = p\<lparr>last_idx := Some i, mode := expecting_key\<rparr>"
    by (auto simp: parse_token_def Let_def split: if_splits)
  with expecting_key_comma show ?thesis
    by (simp add: pending_occurrences_def occurrences_Cons)
qed

lemma finish_pending:
  assumes "finish p = Inr m" and "parser_ok p"
  shows "m = fold merge (pending_occurrences p []) (out p)"
proof -
  from assms(1) have md: "mode p = expecting_list_value \<or> mode p = expecting_list_comma \<or>
      mode p = expecting_key_comma" and m: "m = out (flush_key_value p)"
    by (cases "mode p"; auto simp: finish_def split: option.splits)+
  from md show ?thesis
  proof (elim disjE)
    assume a: "mode p = expecting_list_value"
    with assms(2) obtain k where k: "current_key p = Some k" by (auto simp: parser_ok_def)
    with a m show ?thesis by (simp add: pending_occurrences_def out_flush_key_value)
  next
    assume a: "mode p = expecting_list_comma"
    with assms(2) obtain k where k: "current_key p = Some k" by (auto simp: parser_ok_def)
    with a m show ?thesis by (simp add: pending_occurrences_def out_flush_key_value)
  next
    assume a: "mode p = expecting_key_comma"
    with assms(2) have "current_key p = None" by (auto simp: parser_ok_def)
    with a m show ?thesis by (simp add: pending_occurrences_def flush_key_value_def)
  qed
qed

lemma no_adjacent_plain_tl: "no_adjacent_plain (a # xs) \<Longrightarrow> no_adjacent_plain xs"
  by (cases xs) auto

lemma no_adjacent_plain_True: "no_adjacent_plain xs \<Longrightarrow> no_adjacent_plain (True # xs)"
  by (cases xs) auto

lemma parse_loop_pending:
  "parse_loop ts p = Inr p' \<Longrightarrow> finish p' = Inr m \<Longrightarrow> parser_ok p \<Longrightarrow>
   no_adjacent_plain ((mode p \<noteq> expecting_colon) # map (\<lambda>x. fst (snd x)) ts) \<Longrightarrow>
   m = fold merge (pending_occurrences p (texts ts)) (out p)"
proof (induction ts p rule: parse_loop.induct)
  case (1 p)
  then show ?case by (simp add: texts_def finish_pending)
next
  case (2 t s i rest p)
  from "2.prems"(1) obtain p1 where
    step: "parse_token t s i p = Inr p1" and loop: "parse_loop rest p1 = Inr p'"
    by (auto split: sum.splits)
  from "2.prems"(3) step have ok1: "parser_ok p1" by (rule parser_ok_parse_token)
  from "2.prems"(4) have sp: "mode p = expecting_colon \<Longrightarrow> s" by auto
  from "2.prems"(4) have nap: "no_adjacent_plain (s # map (\<lambda>x. fst (snd x)) rest)"
    using no_adjacent_plain_tl [of "mode p \<noteq> expecting_colon" "s # map (\<lambda>x. fst (snd x)) rest"]
    by simp
  have nap1: "no_adjacent_plain ((mode p1 \<noteq> expecting_colon) # map (\<lambda>x. fst (snd x)) rest)"
  proof (cases "mode p1 = expecting_colon")
    case True
    with step have "\<not> s" by (auto dest: parse_token_expecting_colon)
    with True nap show ?thesis by simp
  next
    case False
    from nap have "no_adjacent_plain (map (\<lambda>x. fst (snd x)) rest)" by (rule no_adjacent_plain_tl)
    with False show ?thesis by (simp add: no_adjacent_plain_True)
  qed
  have nxt: "mode p1 = expecting_colon"
    if "texts rest \<noteq> []" and "hd (texts rest) = ('':'', True)"
  proof -
    from that obtain j rest' where r: "rest = ('':'', True, j) # rest'"
      by (cases rest) (auto simp: texts_def)
    with loop obtain p2 where "parse_token '':'' True j p1 = Inr p2"
      by (auto split: sum.splits)
    then show ?thesis by (rule parse_token_colon_accepted)
  qed
  from "2.IH" [OF step loop "2.prems"(2) ok1 nap1]
  have "m = fold merge (pending_occurrences p1 (texts rest)) (out p1)" .
  also have "\<dots> = fold merge (pending_occurrences p ((t, s) # texts rest)) (out p)"
    using parse_token_pending [OF step "2.prems"(3) sp nxt] by simp
  finally show ?case by (simp add: texts_def)
qed

lemma specials_zip3:
  "length b = length a \<Longrightarrow> length c = length a \<Longrightarrow>
   map (\<lambda>x. fst (snd x)) (zip a (zip b c)) = b"
proof (induction a arbitrary: b c)
  case Nil
  then show ?case by simp
next
  case (Cons x a)
  then obtain y b' z c' where "b = y # b'" "c = z # c'"
    by (cases b; cases c) auto
  with Cons show ?case by simp
qed

lemma specials_zipped:
  "lists_aligned st \<Longrightarrow> map (\<lambda>x. fst (snd x)) (zipped st) = specials st"
  by (simp add: zipped_def lists_aligned_def specials_zip3)

lemma keys_extend: "map fst (extend d k vs) = map fst d"
  by (induction d) (auto simp: extend_def)

lemma distinct_keys_merge: "distinct (map fst d) \<Longrightarrow> distinct (map fst (merge kv d))"
  by (auto simp: merge_def keys_extend)

lemma distinct_keys_fold_merge:
  "distinct (map fst d) \<Longrightarrow> distinct (map fst (fold merge occs d))"
  by (induction occs arbitrary: d) (simp_all add: distinct_keys_merge)

lemma parse_occurrences:
  assumes "parse e = Inr m"
  shows "m = fold merge (key_occurrences e) []"
proof -
  from assms obtain st where tk: "tokenize_match_arg e = Inr st"
    and cd: "create_dictionary st = Inr m"
    by (auto simp: parse_def split: sum.splits)
  from cd obtain p' where loop: "parse_loop (zipped st) parser_init = Inr p'"
    and fin: "finish p' = Inr m"
    by (auto simp: create_dictionary_def split: sum.splits)
  from tk have al: "lists_aligned st" by (rule tokenize_match_arg_aligned)
  from tk have "no_adjacent_plain (specials st)" by (rule tokenize_match_arg_no_adjacent_plain)
  then have "no_adjacent_plain (True # specials st)" by (rule no_adjacent_plain_True)
  then have nap: "no_adjacent_plain ((mode parser_init \<noteq> expecting_colon)
                     # map (\<lambda>x. fst (snd x)) (zipped st))"
    using al by (simp add: specials_zipped parser_init_def)
  from parse_loop_pending [OF loop fin parser_ok_init nap]
  have "m = fold merge (pending_occurrences parser_init (texts (zipped st))) (out parser_init)" .
  then have "m = fold merge (occurrences (zip (tokens st) (specials st))) []"
    using al by (simp add: texts_zipped pending_occurrences_def parser_init_def)
  with tk show ?thesis by (simp add: key_occurrences_def)
qed

text \<open>
  C5. In the dictionary of a successfully parsed expression the keys are distinct, and
  a key that occurs in the expression maps to the concatenation, in the order of the
  occurrences, of the value or value list of each of them (a key that does not occur
  has no entry). In particular \<open>a:1,a:2\<close> gives \<open>a\<close> the list \<open>1, 2\<close>.
\<close>

theorem C5_repeated_keys_concatenate:
  "(parse e = Inr m \<longrightarrow>
      distinct (map fst m) \<and>
      map_of m k =
        (if k \<in> fst ` set (key_occurrences e)
         then Some (concat (map snd (filter (\<lambda>kv. fst kv = k) (key_occurrences e))))
         else None))
   \<and> parse ''a:1,a:2'' = Inr [(''a'', [''1'', ''2''])]"
proof (intro conjI impI)
  assume "parse e = Inr m"
  then have m: "m = fold merge (key_occurrences e) []" by (rule parse_occurrences)
  show "distinct (map fst m)"
    unfolding m by (rule distinct_keys_fold_merge) simp
  show "map_of m k =
        (if k \<in> fst ` set (key_occurrences e)
         then Some (concat (map snd (filter (\<lambda>kv. fst kv = k) (key_occurrences e))))
         else None)"
    unfolding m by (simp add: map_of_fold_merge)
next
  show "parse ''a:1,a:2'' = Inr [(''a'', [''1'', ''2''])]"
    by code_simp
qed

theorem C5_repeated_keys_witness:
  "parse ''a:1,b:[2,3],a:[4,5]'' = Inr [(''a'', [''1'', ''4'', ''5'']), (''b'', [''2'', ''3''])] \<and>
   key_occurrences ''a:1,b:[2,3],a:[4,5]'' =
     [(''a'', [''1'']), (''b'', [''2'', ''3'']), (''a'', [''4'', ''5''])] \<and>
   map_of [(''a'', [''1'', ''4'', ''5'']), (''b'', [''2'', ''3''])] ''a'' =
     Some (concat [[''1''], [''4'', ''5'']])"
proof -
  let ?e = "''a:1,b:[2,3],a:[4,5]''"
  let ?m = "[(''a'', [''1'', ''4'', ''5'']), (''b'', [''2'', ''3''])]"
  have p: "parse ?e = Inr ?m"
    by code_simp
  have o: "key_occurrences ?e = [(''a'', [''1'']), (''b'', [''2'', ''3'']), (''a'', [''4'', ''5''])]"
    by code_simp
  from C5_repeated_keys_concatenate [of ?e ?m "''a''"] p
  have "map_of ?m ''a'' =
        (if ''a'' \<in> fst ` set (key_occurrences ?e)
         then Some (concat (map snd (filter (\<lambda>kv. fst kv = ''a'') (key_occurrences ?e))))
         else None)"
    by blast
  then have "map_of ?m ''a'' = Some (concat [[''1''], [''4'', ''5'']])"
    unfolding o by simp
  with p o show ?thesis by (intro conjI)
qed

subsection \<open>The input ends inside a list: what is stored\<close>

text \<open>The occurrences the parser has completed are exactly those it has merged into
  \<open>out\<close>; the others are still pending.\<close>

lemma parse_token_occurrences:
  assumes step: "parse_token t s i p = Inr p1"
    and ok: "parser_ok p"
    and sp: "mode p = expecting_colon \<Longrightarrow> s"
    and nxt: "rest \<noteq> [] \<Longrightarrow> hd rest = ('':'', True) \<Longrightarrow> mode p1 = expecting_colon"
  shows "\<exists>done. pending_occurrences p ((t, s) # rest) = done @ pending_occurrences p1 rest \<and>
                out p1 = fold merge done (out p)"
proof (cases "mode p")
  case expecting_key
  with step have "\<not> s" and "mode p1 = expecting_colon" and "current_key p1 = Some t"
    and "out p1 = out p"
    by (auto simp: parse_token_def Let_def split: if_splits)
  with expecting_key
  have "pending_occurrences p ((t, s) # rest) = [] @ pending_occurrences p1 rest \<and>
        out p1 = fold merge [] (out p)"
    by (simp add: pending_occurrences_def)
  then show ?thesis by (rule exI)
next
  case expecting_colon
  with sp have s by simp
  with expecting_colon step have t: "t = '':''" and "mode p1 = expecting_value"
    and "current_key p1 = current_key p" and "out p1 = out p"
    by (auto simp: parse_token_def Let_def split: if_splits)
  with expecting_colon \<open>s\<close>
  have "pending_occurrences p ((t, s) # rest) = [] @ pending_occurrences p1 rest \<and>
        out p1 = fold merge [] (out p)"
    by (simp add: pending_occurrences_def occurrences_Cons)
  then show ?thesis by (rule exI)
next
  case expecting_value
  with ok obtain k where k: "current_key p = Some k" and e: "current_value_list p = []"
    by (auto simp: parser_ok_def)
  show ?thesis
  proof (cases s)
    case True
    with expecting_value step have "t = ''[''" and "mode p1 = expecting_list_value"
      and "current_key p1 = current_key p" and "out p1 = out p"
      and "current_value_list p1 = current_value_list p"
      by (auto simp: parse_token_def Let_def split: if_splits)
    with expecting_value True k e
    have "pending_occurrences p ((t, s) # rest) = [] @ pending_occurrences p1 rest \<and>
          out p1 = fold merge [] (out p)"
      by (simp add: pending_occurrences_def occurrences_Cons)
    then show ?thesis by (rule exI)
  next
    case False
    with expecting_value step
    have p1: "p1 = (flush_key_value (flush_value t (p\<lparr>last_idx := Some i\<rparr>)))
                     \<lparr>mode := expecting_key_comma\<rparr>"
      by (auto simp: parse_token_def Let_def split: if_splits)
    then have m1: "mode p1 = expecting_key_comma" by simp
    from p1 k e have o1: "out p1 = merge (k, [t]) (out p)"
      by (simp add: out_flush_key_value flush_value_def)
    from m1 nxt have "\<not> (rest \<noteq> [] \<and> hd rest = ('':'', True))" by auto
    then have "occurrences ((t, s) # rest) = occurrences rest"
      by (auto simp: occurrences_Cons)
    with expecting_value False k m1 o1
    have "pending_occurrences p ((t, s) # rest) = [(k, [t])] @ pending_occurrences p1 rest \<and>
          out p1 = fold merge [(k, [t])] (out p)"
      by (simp add: pending_occurrences_def)
    then show ?thesis by (rule exI)
  qed
next
  case expecting_list_value
  with ok obtain k where k: "current_key p = Some k"
    by (auto simp: parser_ok_def)
  from expecting_list_value step
  have p1: "p1 = (flush_value t (p\<lparr>last_idx := Some i\<rparr>))\<lparr>mode := expecting_list_comma\<rparr>"
    by (auto simp: parse_token_def Let_def split: if_splits)
  then have m1: "mode p1 = expecting_list_comma" and "out p1 = out p"
    and "current_key p1 = Some k" and "current_value_list p1 = current_value_list p @ [t]"
    using k by (simp_all add: flush_value_def)
  moreover from m1 nxt have "\<not> (rest \<noteq> [] \<and> hd rest = ('':'', True))" by auto
  then have "occurrences ((t, s) # rest) = occurrences rest"
    by (auto simp: occurrences_Cons)
  ultimately
  have "pending_occurrences p ((t, s) # rest) = [] @ pending_occurrences p1 rest \<and>
        out p1 = fold merge [] (out p)"
    using expecting_list_value k by (simp add: pending_occurrences_def list_values_Cons)
  then show ?thesis by (rule exI)
next
  case expecting_list_comma
  with ok obtain k where k: "current_key p = Some k"
    by (auto simp: parser_ok_def)
  from expecting_list_comma step have s by (auto simp: parse_token_def Let_def split: if_splits)
  from expecting_list_comma step have "t = '']'' \<or> t = '',''"
    by (auto simp: parse_token_def Let_def split: if_splits)
  then show ?thesis
  proof
    assume t: "t = '']''"
    with expecting_list_comma step \<open>s\<close>
    have p1: "p1 = (flush_key_value (p\<lparr>last_idx := Some i\<rparr>))\<lparr>mode := expecting_key_comma\<rparr>"
      by (simp add: parse_token_def Let_def)
    then have m1: "mode p1 = expecting_key_comma" by simp
    from p1 k have "out p1 = merge (k, current_value_list p) (out p)"
      by (simp add: out_flush_key_value)
    with expecting_list_comma m1 t \<open>s\<close> k
    have "pending_occurrences p ((t, s) # rest) =
            [(k, current_value_list p)] @ pending_occurrences p1 rest \<and>
          out p1 = fold merge [(k, current_value_list p)] (out p)"
      by (simp add: pending_occurrences_def occurrences_Cons)
    then show ?thesis by (rule exI)
  next
    assume t: "t = '',''"
    with expecting_list_comma step \<open>s\<close>
    have "p1 = p\<lparr>last_idx := Some i, mode := expecting_list_value\<rparr>"
      by (simp add: parse_token_def Let_def)
    with expecting_list_comma t \<open>s\<close> k
    have "pending_occurrences p ((t, s) # rest) = [] @ pending_occurrences p1 rest \<and>
          out p1 = fold merge [] (out p)"
      by (simp add: pending_occurrences_def occurrences_Cons)
    then show ?thesis by (rule exI)
  qed
next
  case expecting_key_comma
  with step have s and "t = '',''" and "p1 = p\<lparr>last_idx := Some i, mode := expecting_key\<rparr>"
    by (auto simp: parse_token_def Let_def split: if_splits)
  with expecting_key_comma
  have "pending_occurrences p ((t, s) # rest) = [] @ pending_occurrences p1 rest \<and>
        out p1 = fold merge [] (out p)"
    by (simp add: pending_occurrences_def occurrences_Cons)
  then show ?thesis by (rule exI)
qed

lemma parse_loop_occurrences:
  "parse_loop ts p = Inr p' \<Longrightarrow> parser_ok p \<Longrightarrow>
   no_adjacent_plain ((mode p \<noteq> expecting_colon) # map (\<lambda>x. fst (snd x)) ts) \<Longrightarrow>
   \<exists>done. pending_occurrences p (texts ts) = done @ pending_occurrences p' [] \<and>
          out p' = fold merge done (out p)"
proof (induction ts p rule: parse_loop.induct)
  case (1 p)
  then have "pending_occurrences p (texts []) = [] @ pending_occurrences p' [] \<and>
             out p' = fold merge [] (out p)"
    by (simp add: texts_def)
  then show ?case by (rule exI)
next
  case (2 t s i rest p)
  from "2.prems"(1) obtain p1 where
    step: "parse_token t s i p = Inr p1" and loop: "parse_loop rest p1 = Inr p'"
    by (auto split: sum.splits)
  from "2.prems"(2) step have ok1: "parser_ok p1" by (rule parser_ok_parse_token)
  from "2.prems"(3) have sp: "mode p = expecting_colon \<Longrightarrow> s" by auto
  from "2.prems"(3) have nap: "no_adjacent_plain (s # map (\<lambda>x. fst (snd x)) rest)"
    using no_adjacent_plain_tl [of "mode p \<noteq> expecting_colon" "s # map (\<lambda>x. fst (snd x)) rest"]
    by simp
  have nap1: "no_adjacent_plain ((mode p1 \<noteq> expecting_colon) # map (\<lambda>x. fst (snd x)) rest)"
  proof (cases "mode p1 = expecting_colon")
    case True
    with step have "\<not> s" by (auto dest: parse_token_expecting_colon)
    with True nap show ?thesis by simp
  next
    case False
    from nap have "no_adjacent_plain (map (\<lambda>x. fst (snd x)) rest)"
      by (rule no_adjacent_plain_tl)
    with False show ?thesis by (simp add: no_adjacent_plain_True)
  qed
  have nxt: "mode p1 = expecting_colon"
    if "texts rest \<noteq> []" and "hd (texts rest) = ('':'', True)"
  proof -
    from that obtain j rest' where r: "rest = ('':'', True, j) # rest'"
      by (cases rest) (auto simp: texts_def)
    with loop obtain p2 where "parse_token '':'' True j p1 = Inr p2"
      by (auto split: sum.splits)
    then show ?thesis by (rule parse_token_colon_accepted)
  qed
  from parse_token_occurrences [OF step "2.prems"(2) sp nxt]
  obtain d1 where d1: "pending_occurrences p ((t, s) # texts rest) =
                         d1 @ pending_occurrences p1 (texts rest)"
    and o1: "out p1 = fold merge d1 (out p)"
    by blast
  from "2.IH" [OF step loop ok1 nap1]
  obtain d2 where d2: "pending_occurrences p1 (texts rest) = d2 @ pending_occurrences p' []"
    and o2: "out p' = fold merge d2 (out p1)"
    by blast
  from d1 d2 o1 o2
  have "pending_occurrences p (texts ((t, s, i) # rest)) = (d1 @ d2) @ pending_occurrences p' [] \<and>
        out p' = fold merge (d1 @ d2) (out p)"
    by (simp add: texts_def)
  then show ?case by (rule exI)
qed

lemma zipped_closing_token:
  "lists_aligned st \<Longrightarrow>
   zipped (st\<lparr>tokens := tokens st @ [t], specials := specials st @ [s],
              indices := indices st @ [i]\<rparr>) = zipped st @ [(t, s, i)]"
  by (simp add: zipped_def lists_aligned_def)

text \<open>
  C3, as stated: when the input ends in \<open>expecting_list_value\<close> or
  \<open>expecting_list_comma\<close> the partial list is stored as if the list had been closed. In
  \<open>expecting_list_value\<close> the closed list is an error: \<open>a:[\<close> returns an empty list for
  \<open>a\<close> where \<open>a:[]\<close> raises \<open>EmptyListError\<close>, and \<open>a:[1,\<close> returns the list \<open>1\<close> where
  \<open>a:[1,]\<close> raises \<open>EmptyValueError\<close>.
\<close>

theorem C3_unterminated_list_counterexample:
  "map_sum id mode (parse_loop (zipped (projr (tokenize_match_arg ''a:[''))) parser_init)
     = Inr expecting_list_value \<and>
   parse ''a:['' = Inr [(''a'', [])] \<and>
   parse ''a:[]'' = Inl (EmptyListError 3) \<and>
   map_sum id mode (parse_loop (zipped (projr (tokenize_match_arg ''a:[1,''))) parser_init)
     = Inr expecting_list_value \<and>
   parse ''a:[1,'' = Inr [(''a'', [''1''])] \<and>
   parse ''a:[1,]'' = Inl (EmptyValueError 5)"
  by code_simp

text \<open>
  C3, amended: when the tokens of an expression leave the parser in
  \<open>expecting_list_value\<close> or \<open>expecting_list_comma\<close>, \<open>parse\<close> raises nothing. The
  unterminated list is the last key occurrence of the expression; the values listed so
  far (possibly none) are stored under its key, after the values of the earlier
  occurrences of that key. With the closing bracket added as a further token, the result
  is the same in \<open>expecting_list_comma\<close>; in \<open>expecting_list_value\<close> the closed list
  raises \<open>EmptyListError\<close> when no value is listed and \<open>EmptyValueError\<close> otherwise.
\<close>

theorem C3_unterminated_list_is_stored:
  assumes tk: "tokenize_match_arg e = Inr st"
    and run: "parse_loop (zipped st) parser_init = Inr p"
    and md: "mode p = expecting_list_value \<or> mode p = expecting_list_comma"
    and cl: "closed = st\<lparr>tokens := tokens st @ ['']''], specials := specials st @ [True],
                          indices := indices st @ [i]\<rparr>"
  shows "\<exists>k vs done.
           key_occurrences e = done @ [(k, vs)] \<and>
           current_key p = Some k \<and> current_value_list p = vs \<and>
           out p = fold merge done [] \<and>
           parse e = Inr (merge (k, vs) (out p)) \<and>
           map_of (merge (k, vs) (out p)) k =
             Some ((case map_of (out p) k of None \<Rightarrow> [] | Some old \<Rightarrow> old) @ vs) \<and>
           create_dictionary closed =
             (if mode p = expecting_list_comma then parse e
              else if vs = [] then Inl (EmptyListError i) else Inl (EmptyValueError i))"
proof -
  have ok: "parser_ok p"
    using parser_ok_init run by (rule parser_ok_parse_loop)
  with md obtain k where k: "current_key p = Some k"
    by (auto simp: parser_ok_def)
  let ?vs = "current_value_list p"
  from tk have al: "lists_aligned st" by (rule tokenize_match_arg_aligned)
  from tk have "no_adjacent_plain (specials st)" by (rule tokenize_match_arg_no_adjacent_plain)
  then have "no_adjacent_plain (True # specials st)" by (rule no_adjacent_plain_True)
  then have nap: "no_adjacent_plain ((mode parser_init \<noteq> expecting_colon)
                     # map (\<lambda>x. fst (snd x)) (zipped st))"
    using al by (simp add: specials_zipped parser_init_def)
  from parse_loop_occurrences [OF run parser_ok_init nap]
  obtain "done" where d: "pending_occurrences parser_init (texts (zipped st)) =
                          done @ pending_occurrences p []"
    and o: "out p = fold merge done (out parser_init)"
    by blast
  have "pending_occurrences parser_init (texts (zipped st)) = key_occurrences e"
    using al tk by (simp add: texts_zipped pending_occurrences_def parser_init_def
        key_occurrences_def)
  moreover from md k have "pending_occurrences p [] = [(k, ?vs)]"
    by (auto simp: pending_occurrences_def)
  ultimately have occ: "key_occurrences e = done @ [(k, ?vs)]"
    using d by simp
  from o have o': "out p = fold merge done []"
    by (simp add: parser_init_def)
  from md have "finish p = Inr (out (flush_key_value p))"
    by (auto simp: finish_def)
  with tk run k have res: "parse e = Inr (merge (k, ?vs) (out p))"
    by (simp add: parse_def create_dictionary_def out_flush_key_value)
  have z: "zipped closed = zipped st @ [('']'', True, i)]"
    unfolding cl using al by (rule zipped_closing_token)
  have cd: "create_dictionary closed =
             (if mode p = expecting_list_comma then parse e
              else if ?vs = [] then Inl (EmptyListError i) else Inl (EmptyValueError i))"
  proof (cases "mode p = expecting_list_comma")
    case True
    with k have "parse_token '']'' True i p =
        Inr ((flush_key_value (p\<lparr>last_idx := Some i\<rparr>))\<lparr>mode := expecting_key_comma\<rparr>)"
      by (simp add: parse_token_def Let_def)
    with run k True res show ?thesis
      by (simp add: create_dictionary_def z parse_loop_append finish_def flush_key_value_def
          merge_def)
  next
    case False
    with md have "mode p = expecting_list_value" by simp
    then have "parse_token '']'' True i p =
        (if ?vs = [] then Inl (EmptyListError i) else Inl (EmptyValueError i))"
      by (simp add: parse_token_def Let_def)
    with run False show ?thesis
      by (simp add: create_dictionary_def z parse_loop_append)
  qed
  from occ k o' res map_of_merge [of k ?vs "out p" k] cd show ?thesis
    by (intro exI [of _ k] exI [of _ ?vs] exI [of _ "done"]) simp
qed

theorem C3_unterminated_list_witness:
  "tokenize_match_arg ''key:[1,2'' =
     Inr \<lparr>tokens = [''key'', '':'', ''['', ''1'', '','', ''2''],
          specials = [False, True, True, False, True, False],
          indices = [3, 3, 4, 6, 6, 7], current_item = [], escaped = False,
          active_quotes = [], idx = Some 7\<rparr> \<and>
   parse_loop [(''key'', False, 3), ('':'', True, 3), (''['', True, 4), (''1'', False, 6),
               ('','', True, 6), (''2'', False, 7)] parser_init =
     Inr \<lparr>mode = expecting_list_comma, out = [], current_key = Some ''key'',
          current_value_list = [''1'', ''2''], last_idx = Some 7\<rparr> \<and>
   key_occurrences ''key:[1,2'' = [(''key'', [''1'', ''2''])] \<and>
   parse ''key:[1,2'' = Inr [(''key'', [''1'', ''2''])] \<and>
   tokenize_match_arg ''k:3,k:[1,'' =
     Inr \<lparr>tokens = [''k'', '':'', ''3'', '','', ''k'', '':'', ''['', ''1'', '',''],
          specials = [False, True, False, True, False, True, True, False, True],
          indices = [1, 1, 3, 3, 5, 5, 6, 8, 8], current_item = [], escaped = False,
          active_quotes = [], idx = Some 8\<rparr> \<and>
   parse_loop [(''k'', False, 1), ('':'', True, 1), (''3'', False, 3), ('','', True, 3),
               (''k'', False, 5), ('':'', True, 5), (''['', True, 6), (''1'', False, 8),
               ('','', True, 8)] parser_init =
     Inr \<lparr>mode = expecting_list_value, out = [(''k'', [''3''])], current_key = Some ''k'',
          current_value_list = [''1''], last_idx = Some 8\<rparr> \<and>
   key_occurrences ''k:3,k:[1,'' = [(''k'', [''3'']), (''k'', [''1''])] \<and>
   parse ''k:3,k:[1,'' = Inr [(''k'', [''3'', ''1''])]"
proof -
  let ?sa = "\<lparr>tokens = [''key'', '':'', ''['', ''1'', '','', ''2''],
          specials = [False, True, True, False, True, False],
          indices = [3, 3, 4, 6, 6, 7], current_item = [], escaped = False,
          active_quotes = [], idx = Some 7\<rparr>"
  let ?pa = "\<lparr>mode = expecting_list_comma, out = [], current_key = Some ''key'',
          current_value_list = [''1'', ''2''], last_idx = Some 7\<rparr>"
  let ?sb = "\<lparr>tokens = [''k'', '':'', ''3'', '','', ''k'', '':'', ''['', ''1'', '',''],
          specials = [False, True, False, True, False, True, True, False, True],
          indices = [1, 1, 3, 3, 5, 5, 6, 8, 8], current_item = [], escaped = False,
          active_quotes = [], idx = Some 8\<rparr>"
  let ?pb = "\<lparr>mode = expecting_list_value, out = [(''k'', [''3''])], current_key = Some ''k'',
          current_value_list = [''1''], last_idx = Some 8\<rparr>"
  have tka: "tokenize_match_arg ''key:[1,2'' = Inr ?sa"
    by code_simp
  have za: "zipped ?sa = [(''key'', False, 3), ('':'', True, 3), (''['', True, 4),
                          (''1'', False, 6), ('','', True, 6), (''2'', False, 7)]"
    by (simp add: zipped_def)
  have runa: "parse_loop (zipped ?sa) parser_init = Inr ?pa"
    unfolding za by code_simp
  have mda: "mode ?pa = expecting_list_value \<or> mode ?pa = expecting_list_comma"
    by simp
  have tkb: "tokenize_match_arg ''k:3,k:[1,'' = Inr ?sb"
    by code_simp
  have zb: "zipped ?sb = [(''k'', False, 1), ('':'', True, 1), (''3'', False, 3),
               ('','', True, 3), (''k'', False, 5), ('':'', True, 5), (''['', True, 6),
               (''1'', False, 8), ('','', True, 8)]"
    by (simp add: zipped_def)
  have runb: "parse_loop (zipped ?sb) parser_init = Inr ?pb"
    unfolding zb by code_simp
  have mdb: "mode ?pb = expecting_list_value \<or> mode ?pb = expecting_list_comma"
    by simp
  from C3_unterminated_list_is_stored [OF tka runa mda refl, of 8]
  have a: "parse ''key:[1,2'' = Inr [(''key'', [''1'', ''2''])]"
    by (auto simp: merge_def)
  from C3_unterminated_list_is_stored [OF tkb runb mdb refl, of 9]
  have b: "parse ''k:3,k:[1,'' = Inr [(''k'', [''3'', ''1''])]"
    by (auto simp: merge_def extend_def)
  have oa: "key_occurrences ''key:[1,2'' = [(''key'', [''1'', ''2''])]"
    by code_simp
  have ob: "key_occurrences ''k:3,k:[1,'' = [(''k'', [''3'']), (''k'', [''1''])]"
    by code_simp
  from a b oa ob tka runa tkb runb show ?thesis
    unfolding za zb by (intro conjI)
qed

end
